(* ===== verification/Prelude.thy ===== *)
theory Prelude
  imports Main "HOL-Library.Multiset"
begin

text \<open>
  Shared vocabulary of the development: the names of the model's basic types, the C
  \<open>int\<close> range of the target (32-bit two's complement), the abstract swap of two list
  positions that the worker threads implement, and the generic lemmas on lists and
  multisets that the component theories share.
\<close>

type_synonym tid = nat
  \<comment> \<open>a thread number, \<open>thread_num\<close> in \<open>struct args\<close>\<close>

type_synonym index = nat
  \<comment> \<open>a position of the shared buffer, and of its mutex\<close>

named_theorems step_simps "unfolding rules for the atomic steps of the model"

definition INT_MAX :: int where
  "INT_MAX = 2147483647"

definition INT_MIN :: int where
  "INT_MIN = -2147483648"

definition in_int_range :: "int \<Rightarrow> bool" where
  "in_int_range x \<longleftrightarrow> INT_MIN \<le> x \<and> x \<le> INT_MAX"

text \<open>The abstract operation: positions \<open>i\<close> and \<open>j\<close> of a list exchanged.\<close>

definition list_swap :: "'a list \<Rightarrow> nat \<Rightarrow> nat \<Rightarrow> 'a list" where
  "list_swap xs i j = xs[i := xs ! j, j := xs ! i]"

text \<open>The abstract machine the workers implement: a sequence of exchanges.\<close>

definition apply_swaps :: "'a list \<Rightarrow> (nat \<times> nat) list \<Rightarrow> 'a list" where
  "apply_swaps xs ps = foldl (\<lambda>ys p. list_swap ys (fst p) (snd p)) xs ps"

lemma length_list_swap [simp]: "length (list_swap xs i j) = length xs"
  by (simp add: list_swap_def)

lemma mset_list_swap [simp]:
  assumes "i < length xs" and "j < length xs"
  shows "mset (list_swap xs i j) = mset xs"
proof (cases "i = j")
  case True
  then show ?thesis by (simp add: list_swap_def)
next
  case False
  then have "xs[i := xs ! j, j := xs ! i] = xs[j := xs ! i, i := xs ! j]"
    by (rule list_update_swap)
  with assms show ?thesis by (simp add: list_swap_def mset_swap)
qed

lemma apply_swaps_snoc [simp]:
  "apply_swaps xs (ps @ [p]) = list_swap (apply_swaps xs ps) (fst p) (snd p)"
  by (simp add: apply_swaps_def)

lemma apply_swaps_Nil [simp]: "apply_swaps xs [] = xs"
  by (simp add: apply_swaps_def)

lemma list_swap_same [simp]: "list_swap xs i i = xs"
  by (simp add: list_swap_def)

lemma nth_list_swap:
  "k < length xs \<Longrightarrow> i < length xs \<Longrightarrow> j < length xs \<Longrightarrow>
   list_swap xs i j ! k = (if k = j then xs ! i else if k = i then xs ! j else xs ! k)"
  by (simp add: list_swap_def nth_list_update)

text \<open>A read of an updated list at an index in range, whatever the updated index.\<close>

lemma nth_list_update_at:
  "k < length xs \<Longrightarrow> xs[i := x] ! k = (if k = i then x else xs ! k)"
  by (cases "k = i") auto

text \<open>A property of every element survives an update with an element that has it.\<close>

lemma list_all_update [simp]: "list_all P xs \<Longrightarrow> P v \<Longrightarrow> list_all P (xs[i := v])"
  by (auto simp: list_all_iff dest: set_update_subset_insert[THEN subsetD])

text \<open>Two holder entries that agree on every thread but \<open>t\<close>.\<close>

lemma same_other_holders:
  assumes "\<forall>u. u \<noteq> t \<longrightarrow> (a = Some u) = (b = Some u)"
  shows "a \<in> {None, Some t} \<longleftrightarrow> b \<in> {None, Some t}"
  using assms by (cases a; cases b) auto

text \<open>Sums of lists that are permutations of one another agree.\<close>

lemma sum_list_mset_eq:
  "mset (xs :: 'a::comm_monoid_add list) = mset ys \<Longrightarrow> sum_list xs = sum_list ys"
  by (metis sum_mset_sum_list)

lemma mset_eq_set_eq: "mset xs = mset ys \<Longrightarrow> set xs = set ys"
  by (metis set_mset_mset)

text \<open>The initial contents of the buffer, as C ints, and its sum.\<close>

lemma sum_list_upt_int:
  "2 * sum_list (map int [0..<n]) = int n * (int n - 1)"
proof (induction n)
  case 0
  then show ?case by simp
next
  case (Suc n)
  then show ?case by (simp add: algebra_simps)
qed

lemma nonneg_upt_int: "x \<in> set (map int [0..<n]) \<Longrightarrow> 0 \<le> x"
  by auto

end
