(* ===== verification/Buffer.thy ===== *)
theory Buffer
  imports Prelude
begin

text \<open>
  The shared buffer of \<^verbatim>\<open>src/swape2.c\<close>: \<open>struct buffer\<close> (a data array of C ints and
  its size), the initialisation loop of \<open>start_threads\<close> that writes \<open>data[i] = i\<close>,
  and \<open>checkBuffer\<close>, which sums the array in a C \<open>int\<close> and compares the sum with 45.
  Signed overflow of the running sum is undefined behaviour in C; \<open>check_sum\<close> returns
  \<open>None\<close> there instead of a value. The lemmas show that the initialisation loop writes
  the identity permutation, when the sum of a permutation of \<open>0 .. N-1\<close> stays in range
  (exactly when \<open>N \<le> 65536\<close>), and that the hard-coded 45 accepts such a buffer only
  for \<open>N = 10\<close>.
\<close>

record buffer =
  data :: "int list"
  bsize :: int

text \<open>\<open>for (i = 0; i < buffer.size; i++) buffer.data[i] = i;\<close> over the freshly allocated
  array \<open>d\<close>, whose initial contents are arbitrary.\<close>

function init_loop :: "nat \<Rightarrow> int list \<Rightarrow> int list" where
  "init_loop i d = (if i < length d then init_loop (Suc i) (d[i := int i]) else d)"
  by pat_completeness auto
termination
  by (relation "measure (\<lambda>(i, d). length d - i)") auto

declare init_loop.simps [simp del]

definition init_buffer :: "int list \<Rightarrow> buffer" where
  "init_buffer d = \<lparr>data = init_loop 0 d, bsize = int (length d)\<rparr>"

text \<open>The summation loop of \<open>checkBuffer\<close>: \<open>aux += buffer.data[i]\<close>, \<open>None\<close> on signed
  overflow.\<close>

fun check_sum :: "int \<Rightarrow> int list \<Rightarrow> int option" where
  "check_sum aux [] = Some aux"
| "check_sum aux (x # xs) =
     (if in_int_range (aux + x) then check_sum (aux + x) xs else None)"

definition checkBuffer :: "buffer \<Rightarrow> bool option" where
  "checkBuffer b = map_option (\<lambda>aux. aux = 45) (check_sum 0 (take (nat (bsize b)) (data b)))"

text \<open>A list is a permutation of \<open>0 .. n-1\<close>.\<close>

definition is_perm_upto :: "int list \<Rightarrow> nat \<Rightarrow> bool" where
  "is_perm_upto xs n \<longleftrightarrow> mset xs = mset (map int [0..<n])"

text \<open>The reference meaning of a C sum: the running sums after each element, and the sum
  itself when all of them are C ints (the loop has a defined result), none otherwise.\<close>

definition partial_sums :: "int \<Rightarrow> int list \<Rightarrow> int list" where
  "partial_sums aux xs = map (\<lambda>k. aux + sum_list (take (Suc k) xs)) [0..<length xs]"

definition c_sum :: "int \<Rightarrow> int list \<Rightarrow> int option" where
  "c_sum aux xs =
     (if list_all in_int_range (partial_sums aux xs) then Some (aux + sum_list xs) else None)"

subsection \<open>The initialisation loop\<close>

lemma init_loop_nth:
  "k < length d \<Longrightarrow> init_loop i d ! k = (if i \<le> k then int k else d ! k)"
proof (induction i d rule: init_loop.induct)
  case (1 i d)
  show ?case
  proof (cases "i < length d")
    case True
    with "1.IH" "1.prems" have
      "init_loop (Suc i) (d[i := int i]) ! k = (if Suc i \<le> k then int k else d[i := int i] ! k)"
      by simp
    with True show ?thesis
      by (auto simp: init_loop.simps [of i d] nth_list_update)
  next
    case False
    with "1.prems" show ?thesis by (simp add: init_loop.simps [of i d])
  qed
qed

lemma length_init_loop [simp]: "length (init_loop i d) = length d"
proof (induction i d rule: init_loop.induct)
  case (1 i d)
  then show ?case by (simp add: init_loop.simps [of i d])
qed

subsection \<open>The summation loop\<close>

lemma check_sum_in_range:
  assumes "\<forall>x \<in> set xs. 0 \<le> x" and "0 \<le> aux" and "aux + sum_list xs \<le> INT_MAX"
  shows "check_sum aux xs = Some (aux + sum_list xs)"
  using assms
proof (induction xs arbitrary: aux)
  case Nil
  then show ?case by simp
next
  case (Cons x xs)
  have "0 \<le> sum_list xs" using Cons.prems(1) by (simp add: sum_list_nonneg)
  then have "in_int_range (aux + x)"
    using Cons.prems by (auto simp: in_int_range_def INT_MIN_def)
  moreover have "check_sum (aux + x) xs = Some (aux + x + sum_list xs)"
    using Cons.prems by (intro Cons.IH) (auto simp: add.assoc)
  ultimately show ?case by (simp add: add.assoc)
qed

lemma check_sum_overflow:
  assumes "\<forall>x \<in> set xs. 0 \<le> x" and "0 \<le> aux" and "aux \<le> INT_MAX"
    and "INT_MAX < aux + sum_list xs"
  shows "check_sum aux xs = None"
  using assms
proof (induction xs arbitrary: aux)
  case Nil
  then show ?case by simp
next
  case (Cons x xs)
  show ?case
  proof (cases "in_int_range (aux + x)")
    case True
    then have "check_sum (aux + x) xs = None"
      using Cons.prems by (intro Cons.IH) (auto simp: add.assoc in_int_range_def)
    with True show ?thesis by simp
  next
    case False
    then show ?thesis by simp
  qed
qed

subsection \<open>Sums of a permutation of \<open>0 .. N-1\<close>\<close>

lemma perm_upto_facts:
  assumes "is_perm_upto xs n"
  shows "length xs = n" and "\<forall>x \<in> set xs. 0 \<le> x"
    and "2 * sum_list xs = int n * (int n - 1)"
proof -
  from assms have m: "mset xs = mset (map int [0..<n])" by (simp add: is_perm_upto_def)
  from m show "length xs = n" by (metis length_map length_upt mset_eq_length minus_nat.diff_0)
  from m have "set xs = set (map int [0..<n])" by (rule mset_eq_set_eq)
  then show "\<forall>x \<in> set xs. 0 \<le> x" by auto
  from m have "sum_list xs = sum_list (map int [0..<n])" by (rule sum_list_mset_eq)
  then show "2 * sum_list xs = int n * (int n - 1)" by (simp add: sum_list_upt_int)
qed

lemma gauss_le_INT_MAX:
  "(int n * (int n - 1) \<le> 2 * INT_MAX) \<longleftrightarrow> n \<le> 65536"
proof
  assume le: "int n * (int n - 1) \<le> 2 * INT_MAX"
  show "n \<le> 65536"
  proof (rule ccontr)
    assume "\<not> n \<le> 65536"
    then have "65537 \<le> int n" by simp
    then have "65537 * 65536 \<le> int n * (int n - 1)"
      by (intro mult_mono) auto
    with le show False by (simp add: INT_MAX_def)
  qed
next
  assume "n \<le> 65536"
  then have "int n \<le> 65536" by simp
  show "int n * (int n - 1) \<le> 2 * INT_MAX"
  proof (cases "n = 0")
    case False
    with \<open>int n \<le> 65536\<close> have "int n * (int n - 1) \<le> 65536 * 65535"
      by (intro mult_mono) simp_all
    then show ?thesis by (simp add: INT_MAX_def)
  qed (simp add: INT_MAX_def)
qed

lemma gauss_eq_90:
  "(int n * (int n - 1) = 90) \<longleftrightarrow> n = 10"
proof
  assume eq: "int n * (int n - 1) = 90"
  show "n = 10"
  proof (rule ccontr)
    assume "n \<noteq> 10"
    then consider "int n \<le> 9" | "11 \<le> int n" by linarith
    then show False
    proof cases
      case 1
      show False
      proof (cases "n = 0")
        case False
        with 1 have "int n * (int n - 1) \<le> 9 * 8"
          by (intro mult_mono) simp_all
        with eq show False by simp
      qed (use eq in simp)
    next
      case 2
      then have "11 * 10 \<le> int n * (int n - 1)"
        by (intro mult_mono) auto
      with eq show False by simp
    qed
  qed
qed simp

lemma sum_perm_upto_le:
  assumes "is_perm_upto xs n"
  shows "sum_list xs \<le> INT_MAX \<longleftrightarrow> n \<le> 65536"
  using perm_upto_facts(3)[OF assms] gauss_le_INT_MAX[of n] by linarith

lemma take_perm_upto:
  "is_perm_upto xs n \<Longrightarrow> take (nat (int n)) xs = xs"
  using perm_upto_facts(1) by simp

lemma init_loop_from_0: "init_loop 0 d = map int [0..<length d]"
  by (rule nth_equalityI) (simp_all add: init_loop_nth)

subsection \<open>Results\<close>

text \<open>C12 (loop equivalence): the initialisation loop of \<open>start_threads\<close> (lines 119--120)
  turns any freshly allocated array into the identity permutation \<open>[0, 1, .., N-1]\<close>.\<close>

theorem init_loop_identity: "init_loop 0 d = map int [0..<length d]"
  by (rule init_loop_from_0)

text \<open>For a buffer that is a permutation of \<open>0 .. N-1\<close> whose sum does not overflow,
  \<open>checkBuffer\<close> answers "correct" exactly when \<open>N = 10\<close>: the constant 45 in line 98 is
  \<open>N(N-1)/2\<close> only for the default size.\<close>

lemma checkBuffer_perm:
  assumes "is_perm_upto (data b) n" and "bsize b = int n" and "n \<le> 65536"
  shows "checkBuffer b = Some (n = 10)"
proof -
  have sum: "check_sum 0 (data b) = Some (sum_list (data b))"
    using check_sum_in_range[of "data b" 0] perm_upto_facts(2)[OF assms(1)]
      sum_perm_upto_le[OF assms(1)] assms(3) by simp
  have "(sum_list (data b) = 45) \<longleftrightarrow> n = 10"
    using perm_upto_facts(3)[OF assms(1)] gauss_eq_90[of n] by linarith
  with sum assms(2) take_perm_upto[OF assms(1)] show ?thesis
    by (simp add: checkBuffer_def)
qed

text \<open>For a permutation of \<open>0 .. N-1\<close> with \<open>N > 65536\<close>, the running sum of
  \<open>checkBuffer\<close> leaves the range of a 32-bit \<open>int\<close> (undefined behaviour in C).\<close>

lemma checkBuffer_overflow:
  assumes "is_perm_upto (data b) n" and "bsize b = int n" and "65536 < n"
  shows "checkBuffer b = None"
proof -
  have "check_sum 0 (data b) = None"
    using check_sum_overflow[of "data b" 0] perm_upto_facts(2)[OF assms(1)]
      sum_perm_upto_le[OF assms(1)] assms(3) by (simp add: INT_MAX_def)
  with assms(2) take_perm_upto[OF assms(1)] show ?thesis
    by (simp add: checkBuffer_def)
qed

lemma partial_sums_Nil [simp]: "partial_sums aux [] = []"
  by (simp add: partial_sums_def)

lemma partial_sums_Cons [simp]:
  "partial_sums aux (x # xs) = (aux + x) # partial_sums (aux + x) xs"
  by (simp add: partial_sums_def upt_conv_Cons map_Suc_upt[symmetric] del: upt_Suc)

text \<open>C28 (the summation loop against its reference): the loop of \<open>checkBuffer\<close> computes
  the sum exactly when every running sum is a C int, and is undefined otherwise, for every
  start value and every list, negative values included.\<close>

theorem check_sum_equiv: "check_sum aux xs = c_sum aux xs"
proof (induction xs arbitrary: aux)
  case Nil
  then show ?case by (simp add: c_sum_def)
next
  case (Cons x xs)
  then show ?case by (simp add: c_sum_def add.assoc)
qed

end
