(* ===== verification/LockTable.thy ===== *)
theory LockTable
  imports Prelude
begin

text \<open>
  The slot lock table of \<^verbatim>\<open>src/swape2.c\<close>: the array \<open>pthread_mutex_t mutex[N]\<close> of
  \<open>start_threads\<close>, one default (non-recursive) POSIX mutex per buffer position. A mutex
  is modelled by its holder: \<open>None\<close> when unlocked, \<open>Some t\<close> when thread \<open>t\<close> holds it.
  The operations are the four the program calls:
  \<^item> \<open>pthread_mutex_lock\<close>: blocks while the mutex is held; the model returns \<open>None\<close>
    for "the caller must wait" (the thread has no step), as a blocking call does;
  \<^item> \<open>pthread_mutex_trylock\<close>: never waits; returns 0 and takes the mutex when it is
    free, and \<open>EBUSY\<close> with the table unchanged when it is held (also by the caller);
  \<^item> \<open>pthread_mutex_unlock\<close>: releases a mutex the caller holds; on any other mutex the
    call is an error (undefined for a default mutex, \<open>EPERM\<close> for an error-checking one),
    which the model returns as \<open>Inl EPERM\<close>;
  \<^item> \<open>pthread_mutex_destroy\<close>: fails with \<open>EBUSY\<close> on a locked mutex.
  Locking index \<open>k\<close> touches entry \<open>k\<close> only, so the locks are independent.
\<close>

type_synonym mutex_table = "tid option list"

datatype mutex_error = EPERM

definition EBUSY :: int where
  "EBUSY = 16"

definition mutex_init_table :: "nat \<Rightarrow> mutex_table" where
  "mutex_init_table n = replicate n None"

definition mutex_lock :: "mutex_table \<Rightarrow> index \<Rightarrow> tid \<Rightarrow> mutex_table option" where
  "mutex_lock m k t = (case m ! k of None \<Rightarrow> Some (m[k := Some t]) | Some _ \<Rightarrow> None)"

definition mutex_trylock :: "mutex_table \<Rightarrow> index \<Rightarrow> tid \<Rightarrow> int \<times> mutex_table" where
  "mutex_trylock m k t = (case m ! k of None \<Rightarrow> (0, m[k := Some t]) | Some _ \<Rightarrow> (EBUSY, m))"

definition mutex_unlock :: "mutex_table \<Rightarrow> index \<Rightarrow> tid \<Rightarrow> mutex_error + mutex_table" where
  "mutex_unlock m k t = (if m ! k = Some t then Inr (m[k := None]) else Inl EPERM)"

definition mutex_destroy :: "mutex_table \<Rightarrow> index \<Rightarrow> int" where
  "mutex_destroy m k = (case m ! k of None \<Rightarrow> 0 | Some _ \<Rightarrow> EBUSY)"

lemma EBUSY_nonzero [simp]: "EBUSY \<noteq> 0"
  by (simp add: EBUSY_def)

lemma mutex_lock_Some_iff:
  "mutex_lock m k t = Some m' \<longleftrightarrow> m ! k = None \<and> m' = m[k := Some t]"
  by (auto simp: mutex_lock_def split: option.splits)

lemma mutex_trylock_free:
  "m ! k = None \<Longrightarrow> mutex_trylock m k t = (0, m[k := Some t])"
  by (simp add: mutex_trylock_def)

lemma mutex_trylock_held:
  "m ! k = Some u \<Longrightarrow> mutex_trylock m k t = (EBUSY, m)"
  by (simp add: mutex_trylock_def)

lemma mutex_unlock_Inr_iff:
  "mutex_unlock m k t = Inr m' \<longleftrightarrow> m ! k = Some t \<and> m' = m[k := None]"
  by (auto simp: mutex_unlock_def)

lemma mutex_unlock_owner:
  "m ! k = Some t \<Longrightarrow> mutex_unlock m k t = Inr (m[k := None])"
  by (simp add: mutex_unlock_def)

end
