(* ===== verification/Worker.thy ===== *)
theory Worker
  imports Buffer LockTable
begin

text \<open>
  The swap worker: the thread body \<open>swap\<close> of \<^verbatim>\<open>src/swape2.c\<close> as a program-counter
  machine, one atomic step per statement that reads or writes shared state.
  The worker's own data is \<open>struct args\<close> (its number, delay and remaining iterations)
  with the locals \<open>i\<close>, \<open>j\<close>, \<open>tmp\<close> of the loop body and its program counter. The
  shared state \<open>sys\<close> is what \<open>start_threads\<close> allocates and passes by pointer to every
  worker: the buffer, the mutex array and the \<open>args\<close> array, together with the
  coordinator's progress through its creation and join loops and the lines printed
  by the workers. \<open>worker_step r t s\<close> is one step of worker \<open>t\<close>: \<open>None\<close> when the worker
  cannot move (it waits in \<open>pthread_mutex_lock\<close>, it has returned, or a call has no
  defined outcome), \<open>r\<close> the pair of values \<open>rand()\<close> returns at the index choice.
  The \<open>usleep(delay)\<close> calls change no state: they only let other threads run, which
  the interleaving of atomic steps already allows at every point.
\<close>

datatype wpc =
    Loop      \<comment> \<open>line 39: \<open>while (args->iterations--)\<close>\<close>
  | Pick      \<comment> \<open>lines 42--43: \<open>i = rand() % size; j = rand() % size\<close>\<close>
  | Print     \<comment> \<open>lines 45--48: the log line reads \<open>data[i]\<close>, \<open>data[j]\<close>; branch on \<open>i != j\<close>\<close>
  | LockJ     \<comment> \<open>line 50: \<open>pthread_mutex_lock(&mutexes[j])\<close>\<close>
  | TryI      \<comment> \<open>lines 51--52: \<open>if (pthread_mutex_trylock(&mutexes[i]) == 0) break\<close>\<close>
  | BackoffJ  \<comment> \<open>line 53: \<open>pthread_mutex_unlock(&mutexes[j])\<close>, retry\<close>
  | SpinI     \<comment> \<open>lines 56--60: \<open>trylock(&mutexes[i])\<close> until it succeeds\<close>
  | ReadI     \<comment> \<open>lines 63--64: \<open>tmp = data[i]\<close>\<close>
  | WriteI    \<comment> \<open>lines 66--67: \<open>data[i] = data[j]\<close>\<close>
  | WriteJ    \<comment> \<open>lines 69--71: \<open>data[j] = tmp\<close>\<close>
  | UnlockI   \<comment> \<open>line 73: \<open>pthread_mutex_unlock(&mutexes[i])\<close>\<close>
  | UnlockJ   \<comment> \<open>lines 75--77: \<open>if (i != j) pthread_mutex_unlock(&mutexes[j])\<close>\<close>
  | Exit      \<comment> \<open>line 80: \<open>return NULL\<close>\<close>

record worker =
  thread_num :: tid
  delay :: int
  iterations :: int
  wi :: index
  wj :: index
  tmp :: int
  pc :: wpc

type_synonym logline = "tid \<times> index \<times> int \<times> index \<times> int"

record sys =
  buf :: buffer
  mutexes :: mutex_table
  workers :: "worker list"
  created :: nat
  joined :: nat
  out :: "logline list"

definition RAND_MAX :: int where
  "RAND_MAX = 2147483647"

definition set_worker :: "tid \<Rightarrow> worker \<Rightarrow> sys \<Rightarrow> sys" where
  "set_worker t w s = s\<lparr>workers := (workers s)[t := w]\<rparr>"

definition set_data :: "int list \<Rightarrow> sys \<Rightarrow> sys" where
  "set_data d s = s\<lparr>buf := (buf s)\<lparr>data := d\<rparr>\<rparr>"

definition worker_step :: "int \<times> int \<Rightarrow> tid \<Rightarrow> sys \<Rightarrow> sys option" where
  "worker_step r t s =
    (let w = workers s ! t; d = data (buf s); m = mutexes s in
     case pc w of
       Loop \<Rightarrow>
         (if iterations w = INT_MIN then None
          else Some (set_worker t (w\<lparr>iterations := iterations w - 1,
                                    pc := (if iterations w \<noteq> 0 then Pick else Exit)\<rparr>) s))
     | Pick \<Rightarrow>
         (let n = bsize (buf s) in
          if n \<le> 0 then None
          else Some (set_worker t (w\<lparr>wi := nat (fst r mod n), wj := nat (snd r mod n),
                                     pc := Print\<rparr>) s))
     | Print \<Rightarrow>
         Some (set_worker t (w\<lparr>pc := (if wi w \<noteq> wj w then LockJ else SpinI)\<rparr>)
                 (s\<lparr>out := out s @ [(thread_num w, wi w, d ! wi w, wj w, d ! wj w)]\<rparr>))
     | LockJ \<Rightarrow>
         map_option (\<lambda>m'. set_worker t (w\<lparr>pc := TryI\<rparr>) (s\<lparr>mutexes := m'\<rparr>))
           (mutex_lock m (wj w) t)
     | TryI \<Rightarrow>
         (case mutex_trylock m (wi w) t of (rc, m') \<Rightarrow>
            Some (set_worker t (w\<lparr>pc := (if rc = 0 then ReadI else BackoffJ)\<rparr>)
                    (s\<lparr>mutexes := m'\<rparr>)))
     | BackoffJ \<Rightarrow>
         (case mutex_unlock m (wj w) t of
            Inl _ \<Rightarrow> None
          | Inr m' \<Rightarrow> Some (set_worker t (w\<lparr>pc := LockJ\<rparr>) (s\<lparr>mutexes := m'\<rparr>)))
     | SpinI \<Rightarrow>
         (case mutex_trylock m (wi w) t of (rc, m') \<Rightarrow>
            Some (set_worker t (w\<lparr>pc := (if rc = 0 then ReadI else SpinI)\<rparr>)
                    (s\<lparr>mutexes := m'\<rparr>)))
     | ReadI \<Rightarrow>
         Some (set_worker t (w\<lparr>tmp := d ! wi w, pc := WriteI\<rparr>) s)
     | WriteI \<Rightarrow>
         Some (set_worker t (w\<lparr>pc := WriteJ\<rparr>) (set_data (d[wi w := d ! wj w]) s))
     | WriteJ \<Rightarrow>
         Some (set_worker t (w\<lparr>pc := UnlockI\<rparr>) (set_data (d[wj w := tmp w]) s))
     | UnlockI \<Rightarrow>
         (case mutex_unlock m (wi w) t of
            Inl _ \<Rightarrow> None
          | Inr m' \<Rightarrow> Some (set_worker t (w\<lparr>pc := UnlockJ\<rparr>) (s\<lparr>mutexes := m'\<rparr>)))
     | UnlockJ \<Rightarrow>
         (if wi w \<noteq> wj w then
            (case mutex_unlock m (wj w) t of
               Inl _ \<Rightarrow> None
             | Inr m' \<Rightarrow> Some (set_worker t (w\<lparr>pc := Loop\<rparr>) (s\<lparr>mutexes := m'\<rparr>)))
          else Some (set_worker t (w\<lparr>pc := Loop\<rparr>) s))
     | Exit \<Rightarrow> None)"

end
