(* ===== verification/System.thy ===== *)
theory System
  imports Worker
begin

text \<open>
  The concurrent phase of \<open>start_threads\<close> in \<^verbatim>\<open>src/swape2.c\<close>: the coordinator
  creates the workers one by one (lines 144--157) and joins them in order (lines
  160--161) while the created workers run \<open>swap\<close>. A step of the whole system is one
  atomic step of one created worker, or the creation of the next worker, or the join of
  the next finished one; which of them happens is the scheduler's choice, so the steps
  are an inductive relation and the runs are the reachable states from the state the
  coordinator has built at line 141.
  The invariant \<open>sys_inv\<close> ties the mutex table to the program counters (a mutex is held
  by exactly the worker whose counter lies between its acquisition and its release),
  bounds the indices, and records what each worker has read. The buffer itself is not a
  permutation between the two writes of a swap; the \<open>committed\<close> view (the buffer with
  the pending write of every worker between its two writes applied) is, in every
  reachable state.
\<close>

record options =
  num_threads :: int
  buffer_size :: int
  iterations_opt :: int
  delay_opt :: int

text \<open>The defaults \<open>main\<close> sets before \<open>read_options\<close> (lines 196--200).\<close>

definition default_options :: options where
  "default_options = \<lparr>num_threads = 10, buffer_size = 10, iterations_opt = 100, delay_opt = 10\<rparr>"

definition valid_options :: "options \<Rightarrow> bool" where
  "valid_options opt \<longleftrightarrow> 0 < buffer_size opt \<and> 0 \<le> num_threads opt \<and> 0 \<le> iterations_opt opt"

definition init_worker :: "options \<Rightarrow> tid \<Rightarrow> worker" where
  "init_worker opt t =
     \<lparr>thread_num = t, delay = delay_opt opt, iterations = iterations_opt opt,
      wi = 0, wj = 0, tmp = 0, pc = Loop\<rparr>"

definition init_sys :: "options \<Rightarrow> sys" where
  "init_sys opt =
     (let n = nat (buffer_size opt) in
      \<lparr>buf = \<lparr>data = map int [0..<n], bsize = int n\<rparr>,
       mutexes = mutex_init_table n,
       workers = map (init_worker opt) [0..<nat (num_threads opt)],
       created = 0, joined = 0, out = []\<rparr>)"

definition rand_ok :: "int \<times> int \<Rightarrow> bool" where
  "rand_ok r \<longleftrightarrow> 0 \<le> fst r \<and> fst r \<le> RAND_MAX \<and> 0 \<le> snd r \<and> snd r \<le> RAND_MAX"

inductive sys_step :: "sys \<Rightarrow> sys \<Rightarrow> bool" where
  work: "t < created s \<Longrightarrow> rand_ok r \<Longrightarrow> worker_step r t s = Some s' \<Longrightarrow> sys_step s s'"
| create: "created s < length (workers s) \<Longrightarrow> sys_step s (s\<lparr>created := Suc (created s)\<rparr>)"
| join: "created s = length (workers s) \<Longrightarrow> joined s < created s \<Longrightarrow>
    pc (workers s ! joined s) = Exit \<Longrightarrow> sys_step s (s\<lparr>joined := Suc (joined s)\<rparr>)"

inductive reachable :: "options \<Rightarrow> sys \<Rightarrow> bool" for opt where
  init: "reachable opt (init_sys opt)"
| step: "reachable opt s \<Longrightarrow> sys_step s s' \<Longrightarrow> reachable opt s'"

definition finished :: "sys \<Rightarrow> bool" where
  "finished s \<longleftrightarrow> joined s = length (workers s)"

subsection \<open>Invariant vocabulary\<close>

text \<open>The mutexes a worker holds at each program counter.\<close>

definition held :: "worker \<Rightarrow> index set" where
  "held w = (case pc w of
      TryI \<Rightarrow> {wj w}
    | BackoffJ \<Rightarrow> {wj w}
    | ReadI \<Rightarrow> {wi w, wj w}
    | WriteI \<Rightarrow> {wi w, wj w}
    | WriteJ \<Rightarrow> {wi w, wj w}
    | UnlockI \<Rightarrow> {wi w, wj w}
    | UnlockJ \<Rightarrow> (if wi w \<noteq> wj w then {wj w} else {})
    | _ \<Rightarrow> {})"

definition critical :: "wpc \<Rightarrow> bool" where
  "critical p \<longleftrightarrow> p \<in> {ReadI, WriteI, WriteJ, UnlockI}"

definition picked :: "wpc \<Rightarrow> bool" where
  "picked p \<longleftrightarrow> p \<notin> {Loop, Pick, Exit}"

definition worker_ok :: "nat \<Rightarrow> int list \<Rightarrow> worker \<Rightarrow> bool" where
  "worker_ok n d w \<longleftrightarrow>
     (picked (pc w) \<longrightarrow> wi w < n \<and> wj w < n) \<and>
     (pc w \<in> {LockJ, TryI, BackoffJ} \<longrightarrow> wi w \<noteq> wj w) \<and>
     (pc w = SpinI \<longrightarrow> wi w = wj w) \<and>
     (pc w = WriteI \<longrightarrow> tmp w = d ! wi w) \<and>
     (pc w = WriteJ \<and> wi w = wj w \<longrightarrow> tmp w = d ! wi w) \<and>
     (pc w = Exit \<longrightarrow> iterations w = -1) \<and>
     (pc w \<noteq> Exit \<longrightarrow> 0 \<le> iterations w)"

definition lock_inv :: "sys \<Rightarrow> bool" where
  "lock_inv s \<longleftrightarrow>
     (\<forall>k < length (mutexes s). \<forall>t < length (workers s).
        (mutexes s ! k = Some t) = (k \<in> held (workers s ! t))) \<and>
     (\<forall>k < length (mutexes s). pred_option (\<lambda>t. t < length (workers s)) (mutexes s ! k))"

definition sys_inv :: "sys \<Rightarrow> bool" where
  "sys_inv s \<longleftrightarrow>
     (let n = length (data (buf s)); ws = workers s in
      0 < n \<and> bsize (buf s) = int n \<and> length (mutexes s) = n \<and>
      joined s \<le> created s \<and> created s \<le> length ws \<and>
      (\<forall>t < length ws. thread_num (ws ! t) = t \<and> worker_ok n (data (buf s)) (ws ! t)) \<and>
      (\<forall>t < length ws. created s \<le> t \<longrightarrow> pc (ws ! t) = Loop) \<and>
      (\<forall>t < joined s. pc (ws ! t) = Exit) \<and>
      lock_inv s)"

text \<open>The buffer with every pending second write applied: at a position whose mutex is
  held by a worker between its two writes, and which is that worker's \<open>j\<close>, the value the
  worker will write there.\<close>

definition committed_val :: "mutex_table \<Rightarrow> worker list \<Rightarrow> int list \<Rightarrow> index \<Rightarrow> int" where
  "committed_val m ws d k =
     (case m ! k of
        None \<Rightarrow> d ! k
      | Some t \<Rightarrow> (if pc (ws ! t) = WriteJ \<and> wj (ws ! t) = k then tmp (ws ! t) else d ! k))"

definition committed :: "sys \<Rightarrow> int list" where
  "committed s =
     map (committed_val (mutexes s) (workers s) (data (buf s))) [0..<length (data (buf s))]"


subsection \<open>Facts the invariant provides\<close>

lemma sys_inv_init: "valid_options opt \<Longrightarrow> sys_inv (init_sys opt)"
  by (auto simp: sys_inv_def init_sys_def valid_options_def worker_ok_def init_worker_def
      lock_inv_def mutex_init_table_def picked_def held_def Let_def)

lemma sys_inv_len:
  assumes "sys_inv s"
  shows "0 < length (data (buf s))" "bsize (buf s) = int (length (data (buf s)))"
    "length (mutexes s) = length (data (buf s))" "created s \<le> length (workers s)"
  using assms by (simp_all add: sys_inv_def Let_def)

lemma sys_inv_worker:
  "sys_inv s \<Longrightarrow> t < length (workers s) \<Longrightarrow> worker_ok (length (data (buf s))) (data (buf s)) (workers s ! t)"
  by (simp add: sys_inv_def Let_def)

lemma sys_inv_lock:
  "sys_inv s \<Longrightarrow> t < length (workers s) \<Longrightarrow> k < length (data (buf s)) \<Longrightarrow>
   (mutexes s ! k = Some t) = (k \<in> held (workers s ! t))"
  by (simp add: sys_inv_def Let_def lock_inv_def)


lemma committed_nth:
  "k < length (data (buf s)) \<Longrightarrow> committed s ! k = committed_val (mutexes s) (workers s) (data (buf s)) k"
  by (simp add: committed_def)

lemma length_committed [simp]: "length (committed s) = length (data (buf s))"
  by (simp add: committed_def)

lemma sys_inv_holder:
  "sys_inv s \<Longrightarrow> k < length (data (buf s)) \<Longrightarrow> mutexes s ! k = Some u \<Longrightarrow> u < length (workers s)"
  by (auto simp: sys_inv_def Let_def lock_inv_def dest!: spec[of _ k])


subsection \<open>The shape of a worker step\<close>

lemmas step_unfold = worker_step_def Let_def set_worker_def set_data_def mutex_lock_def
  mutex_trylock_def mutex_unlock_def

lemma worker_step_workers:
  "worker_step r t s = Some s' \<Longrightarrow> t < length (workers s) \<Longrightarrow>
   workers s' = (workers s)[t := workers s' ! t]"
  by (cases "pc (workers s ! t)")
     (auto simp: step_unfold split: option.splits if_splits prod.splits)

lemma worker_step_shared:
  "worker_step r t s = Some s' \<Longrightarrow>
   bsize (buf s') = bsize (buf s) \<and> length (data (buf s')) = length (data (buf s)) \<and>
   length (mutexes s') = length (mutexes s) \<and> created s' = created s \<and> joined s' = joined s"
  by (cases "pc (workers s ! t)")
     (auto simp: step_unfold split: option.splits if_splits prod.splits)

lemma worker_step_other_holders:
  "worker_step r t s = Some s' \<Longrightarrow> u \<noteq> t \<Longrightarrow> k < length (mutexes s) \<Longrightarrow>
   (mutexes s' ! k = Some u) = (mutexes s ! k = Some u)"
  by (cases "pc (workers s ! t)")
     (auto simp: step_unfold nth_list_update_at split: option.splits if_splits prod.splits)

lemma worker_step_data:
  "worker_step r t s = Some s' \<Longrightarrow> pc (workers s ! t) \<notin> {WriteI, WriteJ} \<Longrightarrow>
   data (buf s') = data (buf s)"
  by (cases "pc (workers s ! t)")
     (auto simp: step_unfold split: option.splits if_splits prod.splits)

lemma worker_step_not_WriteJ:
  "worker_step r t s = Some s' \<Longrightarrow> t < length (workers s) \<Longrightarrow> pc (workers s ! t) \<noteq> WriteI \<Longrightarrow>
   pc (workers s' ! t) \<noteq> WriteJ"
  by (cases "pc (workers s ! t)")
     (auto simp: step_unfold split: option.splits if_splits prod.splits)

subsection \<open>Every step keeps the invariant\<close>

lemma sys_inv_after_worker:
  assumes inv: "sys_inv s" and t: "t < created s" and live: "pc (workers s ! t) \<noteq> Exit"
    and s': "data (buf s') = d'" "bsize (buf s') = bsize (buf s)" "mutexes s' = m'"
      "workers s' = (workers s)[t := w']" "created s' = created s" "joined s' = joined s"
    and len_d: "length d' = length (data (buf s))"
    and len_m: "length m' = length (mutexes s)"
    and num: "thread_num w' = thread_num (workers s ! t)"
    and ok: "worker_ok (length d') d' w'"
    and locks_t: "\<forall>k < length m'. (m' ! k = Some t) = (k \<in> held w')"
    and locks_other: "\<forall>k < length m'. \<forall>u. u \<noteq> t \<longrightarrow> (m' ! k = Some u) = (mutexes s ! k = Some u)"
    and writes: "\<forall>k < length d'. d' ! k \<noteq> data (buf s) ! k \<longrightarrow> k \<in> held (workers s ! t)"
  shows "sys_inv s'"
proof -
  let ?n = "length (data (buf s))" and ?ws = "workers s" and ?d = "data (buf s)"
  from inv have n: "0 < ?n" "bsize (buf s) = int ?n" "length (mutexes s) = ?n"
    and cj: "joined s \<le> created s" "created s \<le> length ?ws"
    and thr: "\<forall>u < length ?ws. thread_num (?ws ! u) = u \<and> worker_ok ?n ?d (?ws ! u)"
    and fresh: "\<forall>u < length ?ws. created s \<le> u \<longrightarrow> pc (?ws ! u) = Loop"
    and fin: "\<forall>u < joined s. pc (?ws ! u) = Exit"
    and li: "lock_inv s"
    by (simp_all add: sys_inv_def Let_def)
  from li have li1: "\<forall>k < ?n. \<forall>u < length ?ws. (mutexes s ! k = Some u) = (k \<in> held (?ws ! u))"
    and li2: "\<forall>k < ?n. pred_option (\<lambda>u. u < length ?ws) (mutexes s ! k)"
    using n by (simp_all add: lock_inv_def)
  have tW: "t < length ?ws" using t cj by simp
  have tj: "\<not> t < joined s" using fin live by auto
  have others_ok: "worker_ok ?n d' (?ws ! u)" if "u < length ?ws" "u \<noteq> t" for u
  proof -
    have wu: "worker_ok ?n ?d (?ws ! u)" using thr that by simp
    have "d' ! wi (?ws ! u) = ?d ! wi (?ws ! u)" if "pc (?ws ! u) \<in> {WriteI, WriteJ}"
    proof (rule ccontr)
      assume ne: "d' ! wi (?ws ! u) \<noteq> ?d ! wi (?ws ! u)"
      have iu: "wi (?ws ! u) < ?n" using wu that by (auto simp: worker_ok_def picked_def)
      with ne writes len_d have "wi (?ws ! u) \<in> held (?ws ! t)" by simp
      with li1 iu tW have "mutexes s ! wi (?ws ! u) = Some t" by blast
      moreover have "wi (?ws ! u) \<in> held (?ws ! u)" using that by (auto simp: held_def)
      with li1 iu \<open>u < length ?ws\<close> have "mutexes s ! wi (?ws ! u) = Some u" by blast
      ultimately show False using \<open>u \<noteq> t\<close> by simp
    qed
    with wu show ?thesis by (auto simp: worker_ok_def)
  qed
  have "\<forall>u < length ?ws. thread_num ((?ws[t := w']) ! u) = u \<and> worker_ok ?n d' ((?ws[t := w']) ! u)"
    using thr others_ok num ok len_d tW by (auto simp: nth_list_update)
  moreover have "\<forall>u < length ?ws. created s \<le> u \<longrightarrow> pc ((?ws[t := w']) ! u) = Loop"
    using fresh t by (auto simp: nth_list_update)
  moreover have "\<forall>u < joined s. pc ((?ws[t := w']) ! u) = Exit"
    using fin tj by (auto simp: nth_list_update)
  moreover have "lock_inv s'"
  proof -
    have "\<forall>k < length m'. \<forall>u < length ?ws. (m' ! k = Some u) = (k \<in> held ((?ws[t := w']) ! u))"
    proof (intro allI impI)
      fix k u assume k: "k < length m'" and u: "u < length ?ws"
      show "(m' ! k = Some u) = (k \<in> held ((?ws[t := w']) ! u))"
      proof (cases "u = t")
        case True
        with locks_t k tW show ?thesis by simp
      next
        case False
        with locks_other li1 k u len_m n show ?thesis by simp
      qed
    qed
    moreover have "\<forall>k < length m'. pred_option (\<lambda>u. u < length ?ws) (m' ! k)"
    proof (intro allI impI)
      fix k assume k: "k < length m'"
      show "pred_option (\<lambda>u. u < length ?ws) (m' ! k)"
      proof (cases "m' ! k")
        case (Some u)
        show ?thesis
        proof (cases "u = t")
          case False
          with Some k locks_other have "mutexes s ! k = Some u" by auto
          with li2 k len_m n have "u < length ?ws" by (metis option.pred_inject(2))
          with Some show ?thesis by simp
        qed (use Some tW in simp)
      qed simp
    qed
    ultimately show ?thesis using s' by (simp add: lock_inv_def)
  qed
  ultimately show ?thesis
    using n cj len_d len_m s' by (simp add: sys_inv_def Let_def)
qed

lemma worker_step_inv:
  assumes inv: "sys_inv s" and t: "t < created s" and step: "worker_step r t s = Some s'"
  shows "sys_inv s'"
proof -
  let ?w = "workers s ! t" and ?m = "mutexes s" and ?d = "data (buf s)"
  have tW: "t < length (workers s)" using t sys_inv_len(4)[OF inv] by simp
  have ok: "worker_ok (length ?d) ?d ?w" using inv tW by (rule sys_inv_worker)
  have lk: "\<And>k. k < length ?d \<Longrightarrow> (?m ! k = Some t) = (k \<in> held ?w)"
    using inv tW by (rule sys_inv_lock)
  note len = sys_inv_len[OF inv]
  note gen = sys_inv_after_worker[OF inv t]
  show ?thesis
  proof (cases "pc ?w")
    case Loop
    then have "iterations ?w \<noteq> INT_MIN" using ok by (auto simp: worker_ok_def INT_MIN_def)
    with Loop have s'': "s' = set_worker t (?w\<lparr>iterations := iterations ?w - 1,
            pc := (if iterations ?w \<noteq> 0 then Pick else Exit)\<rparr>) s"
      using step by (simp add: worker_step_def Let_def)
    show ?thesis using Loop ok lk len
      by (intro gen[where d' = ?d and m' = ?m and w' = "?w\<lparr>iterations := iterations ?w - 1,
            pc := (if iterations ?w \<noteq> 0 then Pick else Exit)\<rparr>"])
        (auto simp: s'' set_worker_def worker_ok_def picked_def held_def)
  next
    case Pick
    then have s'': "s' = set_worker t (?w\<lparr>wi := nat (fst r mod bsize (buf s)),
            wj := nat (snd r mod bsize (buf s)), pc := Print\<rparr>) s"
      using step len by (simp add: worker_step_def Let_def)
    show ?thesis using Pick ok lk len
      by (intro gen[where d' = ?d and m' = ?m and w' = "?w\<lparr>wi := nat (fst r mod bsize (buf s)),
            wj := nat (snd r mod bsize (buf s)), pc := Print\<rparr>"])
        (auto simp: s'' set_worker_def worker_ok_def picked_def held_def nat_less_iff)
  next
    case Print
    then have s'': "s' = set_worker t (?w\<lparr>pc := (if wi ?w \<noteq> wj ?w then LockJ else SpinI)\<rparr>)
        (s\<lparr>out := out s @ [(thread_num ?w, wi ?w, ?d ! wi ?w, wj ?w, ?d ! wj ?w)]\<rparr>)"
      using step by (simp add: worker_step_def Let_def)
    show ?thesis using Print ok lk len
      by (intro gen[where d' = ?d and m' = ?m and w' = "?w\<lparr>pc := (if wi ?w \<noteq> wj ?w then LockJ else SpinI)\<rparr>"])
        (auto simp: s'' set_worker_def worker_ok_def picked_def held_def)
  next
    case LockJ
    then have m: "?m ! wj ?w = None" and s'': "s' = set_worker t (?w\<lparr>pc := TryI\<rparr>) (s\<lparr>mutexes := ?m[wj ?w := Some t]\<rparr>)"
      using step by (auto simp: worker_step_def Let_def mutex_lock_def split: option.splits)
    show ?thesis using LockJ ok lk len m
      by (intro gen[where d' = ?d and m' = "?m[wj ?w := Some t]" and w' = "?w\<lparr>pc := TryI\<rparr>"])
        (auto simp: s'' set_worker_def worker_ok_def picked_def held_def nth_list_update)
  next
    case TryI
    show ?thesis
    proof (cases "?m ! wi ?w")
      case None
      then have s'': "s' = set_worker t (?w\<lparr>pc := ReadI\<rparr>) (s\<lparr>mutexes := ?m[wi ?w := Some t]\<rparr>)"
        using step TryI by (simp add: worker_step_def Let_def mutex_trylock_def)
      show ?thesis using TryI ok lk len None
        by (intro gen[where d' = ?d and m' = "?m[wi ?w := Some t]" and w' = "?w\<lparr>pc := ReadI\<rparr>"])
          (auto simp: s'' set_worker_def worker_ok_def picked_def held_def nth_list_update)
    next
      case (Some u)
      then have s'': "s' = set_worker t (?w\<lparr>pc := BackoffJ\<rparr>) s"
        using step TryI by (simp add: worker_step_def Let_def mutex_trylock_def)
      show ?thesis using TryI ok lk len
        by (intro gen[where d' = ?d and m' = ?m and w' = "?w\<lparr>pc := BackoffJ\<rparr>"])
          (auto simp: s'' set_worker_def worker_ok_def picked_def held_def)
    qed
  next
    case BackoffJ
    then have m: "?m ! wj ?w = Some t" and s'': "s' = set_worker t (?w\<lparr>pc := LockJ\<rparr>) (s\<lparr>mutexes := ?m[wj ?w := None]\<rparr>)"
      using step by (auto simp: worker_step_def Let_def mutex_unlock_def split: if_splits)
    show ?thesis using BackoffJ ok lk len m
      by (intro gen[where d' = ?d and m' = "?m[wj ?w := None]" and w' = "?w\<lparr>pc := LockJ\<rparr>"])
        (auto simp: s'' m set_worker_def worker_ok_def picked_def held_def nth_list_update)
  next
    case SpinI
    show ?thesis
    proof (cases "?m ! wi ?w")
      case None
      then have s'': "s' = set_worker t (?w\<lparr>pc := ReadI\<rparr>) (s\<lparr>mutexes := ?m[wi ?w := Some t]\<rparr>)"
        using step SpinI by (simp add: worker_step_def Let_def mutex_trylock_def)
      show ?thesis using SpinI ok lk len None
        by (intro gen[where d' = ?d and m' = "?m[wi ?w := Some t]" and w' = "?w\<lparr>pc := ReadI\<rparr>"])
          (auto simp: s'' set_worker_def worker_ok_def picked_def held_def nth_list_update)
    next
      case (Some u)
      then have s'': "s' = set_worker t (?w\<lparr>pc := SpinI\<rparr>) s"
        using step SpinI by (simp add: worker_step_def Let_def mutex_trylock_def)
      show ?thesis using SpinI ok lk len
        by (intro gen[where d' = ?d and m' = ?m and w' = "?w\<lparr>pc := SpinI\<rparr>"])
          (auto simp: s'' set_worker_def worker_ok_def picked_def held_def)
    qed
  next
    case ReadI
    then have s'': "s' = set_worker t (?w\<lparr>tmp := ?d ! wi ?w, pc := WriteI\<rparr>) s"
      using step by (simp add: worker_step_def Let_def)
    show ?thesis using ReadI ok lk len
      by (intro gen[where d' = ?d and m' = ?m and w' = "?w\<lparr>tmp := ?d ! wi ?w, pc := WriteI\<rparr>"])
        (auto simp: s'' set_worker_def worker_ok_def picked_def held_def)
  next
    case WriteI
    then have s'': "s' = set_worker t (?w\<lparr>pc := WriteJ\<rparr>) (set_data (?d[wi ?w := ?d ! wj ?w]) s)"
      using step by (simp add: worker_step_def Let_def)
    show ?thesis using WriteI ok lk len
      by (intro gen[where d' = "?d[wi ?w := ?d ! wj ?w]" and m' = ?m and w' = "?w\<lparr>pc := WriteJ\<rparr>"])
        (auto simp: s'' set_worker_def set_data_def worker_ok_def picked_def held_def nth_list_update)
  next
    case WriteJ
    then have s'': "s' = set_worker t (?w\<lparr>pc := UnlockI\<rparr>) (set_data (?d[wj ?w := tmp ?w]) s)"
      using step by (simp add: worker_step_def Let_def)
    show ?thesis using WriteJ ok lk len
      by (intro gen[where d' = "?d[wj ?w := tmp ?w]" and m' = ?m and w' = "?w\<lparr>pc := UnlockI\<rparr>"])
        (auto simp: s'' set_worker_def set_data_def worker_ok_def picked_def held_def nth_list_update)
  next
    case UnlockI
    then have m: "?m ! wi ?w = Some t" and s'': "s' = set_worker t (?w\<lparr>pc := UnlockJ\<rparr>) (s\<lparr>mutexes := ?m[wi ?w := None]\<rparr>)"
      using step by (auto simp: worker_step_def Let_def mutex_unlock_def split: if_splits)
    show ?thesis using UnlockI ok lk len m
      by (intro gen[where d' = ?d and m' = "?m[wi ?w := None]" and w' = "?w\<lparr>pc := UnlockJ\<rparr>"])
        (auto simp: s'' m set_worker_def worker_ok_def picked_def held_def nth_list_update)
  next
    case UnlockJ
    show ?thesis
    proof (cases "wi ?w = wj ?w")
      case False
      with UnlockJ have m: "?m ! wj ?w = Some t" and s'': "s' = set_worker t (?w\<lparr>pc := Loop\<rparr>) (s\<lparr>mutexes := ?m[wj ?w := None]\<rparr>)"
        using step by (auto simp: worker_step_def Let_def mutex_unlock_def split: if_splits)
      show ?thesis using UnlockJ False ok lk len m
        by (intro gen[where d' = ?d and m' = "?m[wj ?w := None]" and w' = "?w\<lparr>pc := Loop\<rparr>"])
          (auto simp: s'' m set_worker_def worker_ok_def picked_def held_def nth_list_update)
    next
      case True
      with UnlockJ have s'': "s' = set_worker t (?w\<lparr>pc := Loop\<rparr>) s"
        using step by (simp add: worker_step_def Let_def)
      show ?thesis using UnlockJ True ok lk len
        by (intro gen[where d' = ?d and m' = ?m and w' = "?w\<lparr>pc := Loop\<rparr>"])
          (auto simp: s'' set_worker_def worker_ok_def picked_def held_def)
    qed
  next
    case Exit
    then show ?thesis using step by (simp add: worker_step_def Let_def)
  qed
qed

subsection \<open>The committed view\<close>

lemma committed_frame:
  assumes inv: "sys_inv s" and tW: "t < length (workers s)"
    and nw: "pc (workers s ! t) \<noteq> WriteJ" "pc w' \<noteq> WriteJ"
    and s': "data (buf s') = data (buf s)" "mutexes s' = m'" "workers s' = (workers s)[t := w']"
    and locks_other: "\<forall>k < length m'. \<forall>u. u \<noteq> t \<longrightarrow> (m' ! k = Some u) = (mutexes s ! k = Some u)"
    and len_m: "length m' = length (mutexes s)"
  shows "committed s' = committed s"
proof -
  let ?d = "data (buf s)" and ?ws = "workers s"
  have lm: "length (mutexes s) = length ?d" using sys_inv_len[OF inv] by simp
  have "committed_val m' (?ws[t := w']) ?d k = committed_val (mutexes s) ?ws ?d k" if k: "k < length ?d" for k
  proof -
  have lo: "\<forall>u. u \<noteq> t \<longrightarrow> (m' ! k = Some u) = (mutexes s ! k = Some u)"
    using locks_other k len_m lm by simp
  show ?thesis
  proof (cases "m' ! k")
    case None
    then have "mutexes s ! k \<in> {None, Some t}"
      using same_other_holders[OF lo] by simp
    then show ?thesis using None nw by (auto simp: committed_val_def)
  next
    case (Some u)
    show ?thesis
    proof (cases "u = t")
      case True
      have "mutexes s ! k \<in> {None, Some t}"
        using same_other_holders[OF lo] Some True by simp
      then show ?thesis using Some True nw tW by (auto simp: committed_val_def)
    next
      case False
      then have "mutexes s ! k = Some u" using lo Some by auto
      then show ?thesis using Some False by (simp add: committed_val_def)
    qed
  qed
  qed
  then show ?thesis using s' by (simp add: committed_def)
qed

lemma committed_WriteJ:
  assumes inv: "sys_inv s" and tW: "t < length (workers s)" and pcw: "pc (workers s ! t) = WriteJ"
    and step: "worker_step r t s = Some s'"
  shows "committed s' = committed s"
proof -
  let ?w = "workers s ! t" and ?d = "data (buf s)" and ?m = "mutexes s"
  have s'': "s' = set_worker t (?w\<lparr>pc := UnlockI\<rparr>) (set_data (?d[wj ?w := tmp ?w]) s)"
    using step pcw by (simp add: worker_step_def Let_def)
  have ok: "worker_ok (length ?d) ?d ?w" using sys_inv_worker[OF inv tW] .
  then have j: "wj ?w < length ?d" using pcw by (simp add: worker_ok_def picked_def)
  have mj: "?m ! wj ?w = Some t" using sys_inv_lock[OF inv tW j] pcw by (simp add: held_def)
  show ?thesis
  proof (rule nth_equalityI)
    show "length (committed s') = length (committed s)" by (simp add: s'' set_worker_def set_data_def)
  next
    fix k assume "k < length (committed s')"
    then have k: "k < length ?d" by (simp add: s'' set_worker_def set_data_def)
    show "committed s' ! k = committed s ! k"
    proof (cases "?m ! k")
      case None
      then show ?thesis using k mj
        by (auto simp: committed_nth s'' set_worker_def set_data_def committed_val_def nth_list_update_at)
    next
      case (Some u)
      then have "u < length (workers s)" using sys_inv_holder[OF inv k] by simp
      then show ?thesis using Some k tW mj pcw
        by (cases "u = t")
           (auto simp: committed_nth s'' set_worker_def set_data_def committed_val_def nth_list_update_at)
    qed
  qed
qed

lemma committed_WriteI:
  assumes inv: "sys_inv s" and tW: "t < length (workers s)" and pcw: "pc (workers s ! t) = WriteI"
    and step: "worker_step r t s = Some s'"
  shows "committed s' = list_swap (committed s) (wi (workers s ! t)) (wj (workers s ! t))"
proof -
  let ?w = "workers s ! t" and ?d = "data (buf s)" and ?m = "mutexes s"
  have s'': "s' = set_worker t (?w\<lparr>pc := WriteJ\<rparr>) (set_data (?d[wi ?w := ?d ! wj ?w]) s)"
    using step pcw by (simp add: worker_step_def Let_def)
  have ok: "worker_ok (length ?d) ?d ?w" using sys_inv_worker[OF inv tW] .
  then have i: "wi ?w < length ?d" and j: "wj ?w < length ?d" and tmp: "tmp ?w = ?d ! wi ?w"
    using pcw by (simp_all add: worker_ok_def picked_def)
  have mi: "?m ! wi ?w = Some t" using sys_inv_lock[OF inv tW i] pcw by (simp add: held_def)
  have mj: "?m ! wj ?w = Some t" using sys_inv_lock[OF inv tW j] pcw by (simp add: held_def)
  have other: "?m ! k \<noteq> Some t" if "k < length ?d" "k \<noteq> wi ?w" "k \<noteq> wj ?w" for k
    using sys_inv_lock[OF inv tW that(1)] that pcw by (simp add: held_def)
  have ci: "committed s ! wi ?w = ?d ! wi ?w" and cj: "committed s ! wj ?w = ?d ! wj ?w"
    using i j mi mj pcw by (simp_all add: committed_nth committed_val_def)
  show ?thesis
  proof (rule nth_equalityI)
    show "length (committed s') = length (list_swap (committed s) (wi ?w) (wj ?w))"
      by (simp add: s'' set_worker_def set_data_def)
  next
    fix k assume "k < length (committed s')"
    then have k: "k < length ?d" by (simp add: s'' set_worker_def set_data_def)
    have rhs: "list_swap (committed s) (wi ?w) (wj ?w) ! k =
        (if k = wj ?w then ?d ! wi ?w else if k = wi ?w then ?d ! wj ?w else committed s ! k)"
      using k i j ci cj by (simp add: nth_list_swap)
    show "committed s' ! k = list_swap (committed s) (wi ?w) (wj ?w) ! k"
    proof (cases "k = wj ?w \<or> k = wi ?w")
      case True
      then show ?thesis
        using k tW mi mj tmp rhs
        by (auto simp: committed_nth s'' set_worker_def set_data_def committed_val_def nth_list_update_at)
    next
      case False
      show ?thesis
      proof (cases "?m ! k")
        case None
        then show ?thesis using k False rhs
          by (auto simp: committed_nth s'' set_worker_def set_data_def committed_val_def nth_list_update_at)
      next
        case (Some u)
        then have "u < length (workers s)" "u \<noteq> t" using sys_inv_holder[OF inv k] other[OF k] False by auto
        then show ?thesis using Some k False rhs
          by (auto simp: committed_nth s'' set_worker_def set_data_def committed_val_def nth_list_update_at)
      qed
    qed
  qed
qed

lemma worker_step_committed:
  assumes inv: "sys_inv s" and t: "t < created s" and step: "worker_step r t s = Some s'"
  shows "committed s' = committed s \<or>
         (\<exists>i < length (data (buf s)). \<exists>j < length (data (buf s)).
            committed s' = list_swap (committed s) i j)"
proof -
  let ?w = "workers s ! t"
  have tW: "t < length (workers s)" using t sys_inv_len(4)[OF inv] by simp
  consider "pc ?w = WriteI" | "pc ?w = WriteJ" | "pc ?w \<notin> {WriteI, WriteJ}" by blast
  then show ?thesis
  proof cases
    case 1
    have "worker_ok (length (data (buf s))) (data (buf s)) ?w" using sys_inv_worker[OF inv tW] .
    then have "wi ?w < length (data (buf s))" "wj ?w < length (data (buf s))"
      using 1 by (simp_all add: worker_ok_def picked_def)
    with committed_WriteI[OF inv tW 1 step] show ?thesis by blast
  next
    case 2
    with committed_WriteJ[OF inv tW 2 step] show ?thesis by blast
  next
    case 3
    have "committed s' = committed s"
    proof (rule committed_frame[OF inv tW])
      show "pc ?w \<noteq> WriteJ" using 3 by simp
      show "pc (workers s' ! t) \<noteq> WriteJ" using worker_step_not_WriteJ[OF step tW] 3 by simp
      show "data (buf s') = data (buf s)" using worker_step_data[OF step] 3 by simp
      show "workers s' = (workers s)[t := workers s' ! t]" using worker_step_workers[OF step tW] .
      show "\<forall>k < length (mutexes s'). \<forall>u. u \<noteq> t \<longrightarrow> (mutexes s' ! k = Some u) = (mutexes s ! k = Some u)"
        using worker_step_other_holders[OF step] worker_step_shared[OF step] by simp
      show "length (mutexes s') = length (mutexes s)" using worker_step_shared[OF step] by simp
    qed simp
    then show ?thesis by simp
  qed
qed

lemma sys_step_inv: "sys_step s s' \<Longrightarrow> sys_inv s \<Longrightarrow> sys_inv s'"
proof (induction rule: sys_step.induct)
  case (work t s r s')
  then show ?case by (blast intro: worker_step_inv)
next
  case (create s)
  then show ?case by (auto simp: sys_inv_def Let_def lock_inv_def)
next
  case (join s)
  then show ?case by (auto simp: sys_inv_def Let_def lock_inv_def less_Suc_eq)
qed

lemma reachable_inv: "reachable opt s \<Longrightarrow> valid_options opt \<Longrightarrow> sys_inv s"
proof (induction rule: reachable.induct)
  case init
  then show ?case by (rule sys_inv_init)
next
  case (step s s')
  then show ?case by (blast intro: sys_step_inv)
qed

text \<open>Refinement: seen through \<open>committed\<close>, every step of the system is a stutter or one
  exchange of two positions.\<close>

lemma sys_step_committed:
  assumes "sys_inv s" and "sys_step s s'"
  shows "committed s' = committed s \<or>
         (\<exists>i < length (committed s). \<exists>j < length (committed s).
            committed s' = list_swap (committed s) i j)"
  using assms(2,1)
proof (induction rule: sys_step.induct)
  case (work t s r s')
  then show ?case using worker_step_committed by simp
next
  case (create s)
  then show ?case by (simp add: committed_def)
next
  case (join s)
  then show ?case by (simp add: committed_def)
qed

lemma committed_init: "committed (init_sys opt) = map int [0..<nat (buffer_size opt)]"
  by (simp add: committed_def init_sys_def committed_val_def mutex_init_table_def Let_def)

lemma reachable_committed_perm:
  assumes "reachable opt s" and "valid_options opt"
  shows "mset (committed s) = mset (map int [0..<nat (buffer_size opt)])"
  using assms
proof (induction rule: reachable.induct)
  case init
  then show ?case by (simp add: committed_init)
next
  case (step s s')
  have inv: "sys_inv s" using step.hyps(1) step.prems by (rule reachable_inv)
  from sys_step_committed[OF inv step.hyps(2)] have "mset (committed s') = mset (committed s)"
    by auto
  with step.IH step.prems show ?case by simp
qed


subsection \<open>Progress and the final state\<close>


lemma sys_inv_owns:
  assumes "sys_inv s" "t < length (workers s)" "k \<in> held (workers s ! t)"
    "picked (pc (workers s ! t))"
  shows "k < length (data (buf s))" "mutexes s ! k = Some t"
proof -
  have ok: "worker_ok (length (data (buf s))) (data (buf s)) (workers s ! t)"
    using sys_inv_worker[OF assms(1,2)] .
  then show k: "k < length (data (buf s))"
    using assms(3,4) by (auto simp: worker_ok_def held_def split: wpc.splits if_splits)
  show "mutexes s ! k = Some t" using sys_inv_lock[OF assms(1,2) k] assms(3) by simp
qed

lemma worker_step_enabled:
  assumes inv: "sys_inv s" and tW: "t < length (workers s)"
    and p: "pc (workers s ! t) \<notin> {LockJ, Exit}"
  shows "\<exists>s'. worker_step r t s = Some s'"
proof -
  let ?w = "workers s ! t"
  have own: "mutexes s ! k = Some t" if "k \<in> held ?w" "picked (pc ?w)" for k
    using sys_inv_owns[OF inv tW that] by simp
  have pos: "\<not> bsize (buf s) \<le> 0" using sys_inv_len[OF inv] by simp
  have nm: "pc ?w = Loop \<Longrightarrow> iterations ?w \<noteq> INT_MIN"
    using sys_inv_worker[OF inv tW] by (auto simp: worker_ok_def INT_MIN_def)
  show ?thesis
  proof (cases "pc ?w")
    case BackoffJ
    then have "mutexes s ! wj ?w = Some t" using own by (simp add: held_def picked_def)
    with BackoffJ show ?thesis by (simp add: worker_step_def Let_def mutex_unlock_def)
  next
    case UnlockI
    then have "mutexes s ! wi ?w = Some t" using own by (simp add: held_def picked_def)
    with UnlockI show ?thesis by (simp add: worker_step_def Let_def mutex_unlock_def)
  next
    case UnlockJ
    then have "wi ?w \<noteq> wj ?w \<Longrightarrow> mutexes s ! wj ?w = Some t" using own by (simp add: held_def picked_def)
    with UnlockJ show ?thesis by (simp add: worker_step_def Let_def mutex_unlock_def)
  qed (use p pos nm in \<open>simp_all add: worker_step_def Let_def mutex_trylock_def split: option.splits\<close>)
qed

lemma lock_free_enabled:
  "pc (workers s ! t) = LockJ \<Longrightarrow> mutexes s ! wj (workers s ! t) = None \<Longrightarrow>
   \<exists>s'. worker_step r t s = Some s'"
  by (simp add: worker_step_def Let_def mutex_lock_def)

lemma holder_not_waiting:
  assumes inv: "sys_inv s" and k: "k < length (data (buf s))" and m: "mutexes s ! k = Some u"
  shows "u < length (workers s)" "pc (workers s ! u) \<notin> {LockJ, Exit}"
proof -
  show u: "u < length (workers s)" using sys_inv_holder[OF inv k m] .
  have "k \<in> held (workers s ! u)" using sys_inv_lock[OF inv u k] m by simp
  then show "pc (workers s ! u) \<notin> {LockJ, Exit}" by (auto simp: held_def)
qed

lemma rand_ok_zero: "rand_ok (0, 0)"
  by (simp add: rand_ok_def RAND_MAX_def)

lemma finished_unlocked:
  assumes inv: "sys_inv s" and fin: "finished s" and k: "k < length (data (buf s))"
  shows "mutexes s ! k = None"
proof (cases "mutexes s ! k")
  case (Some u)
  have u: "u < length (workers s)" using sys_inv_holder[OF inv k Some] .
  have "\<forall>t < joined s. pc (workers s ! t) = Exit" using inv by (simp add: sys_inv_def Let_def)
  with fin u have "pc (workers s ! u) = Exit" by (simp add: finished_def)
  with sys_inv_lock[OF inv u k] Some show ?thesis by (simp add: held_def)
qed

lemma finished_committed:
  assumes "sys_inv s" and "finished s"
  shows "committed s = data (buf s)"
  using finished_unlocked[OF assms]
  by (intro nth_equalityI) (simp_all add: committed_nth committed_val_def)


lemma finished_perm_facts:
  assumes "reachable opt s" and "valid_options opt" and "finished s"
  shows "is_perm_upto (data (buf s)) (nat (buffer_size opt)) \<and>
         bsize (buf s) = int (nat (buffer_size opt)) \<and>
         (\<forall>k < length (data (buf s)). mutexes s ! k = None)"
proof -
  have inv: "sys_inv s" using assms(1,2) by (rule reachable_inv)
  have "is_perm_upto (data (buf s)) (nat (buffer_size opt))"
    using reachable_committed_perm[OF assms(1,2)] finished_committed[OF inv assms(3)]
    by (simp add: is_perm_upto_def)
  moreover from this have "bsize (buf s) = int (nat (buffer_size opt))"
    using sys_inv_len(2)[OF inv] perm_upto_facts(1) by simp
  ultimately show ?thesis using finished_unlocked[OF inv assms(3)] by blast
qed

subsection \<open>Properties of the concurrent phase\<close>

text \<open>C2 (permutation invariant): in every reachable state, the buffer with the pending
  writes applied is a permutation of the initial contents \<open>0 .. N-1\<close>.\<close>

theorem committed_perm:
  assumes "reachable opt s" and "valid_options opt"
  shows "mset (committed s) = mset (map int [0..<nat (buffer_size opt)])"
  using assms by (rule reachable_committed_perm)

text \<open>C3 (mutual exclusion): two different workers in their critical sections (from the
  read of \<open>data[i]\<close> to the release of mutex \<open>i\<close>) never share a buffer position.\<close>

theorem mutual_exclusion:
  assumes "reachable opt s" and "valid_options opt"
    and "t1 < length (workers s)" and "t2 < length (workers s)" and "t1 \<noteq> t2"
    and "critical (pc (workers s ! t1))" and "critical (pc (workers s ! t2))"
  shows "{wi (workers s ! t1), wj (workers s ! t1)} \<inter> {wi (workers s ! t2), wj (workers s ! t2)} = {}"
proof -
  have inv: "sys_inv s" using assms(1,2) by (rule reachable_inv)
  have h: "held (workers s ! t) = {wi (workers s ! t), wj (workers s ! t)}"
    and p: "picked (pc (workers s ! t))" if "critical (pc (workers s ! t))" for t
    using that by (auto simp: critical_def held_def picked_def)
  have "mutexes s ! k = Some t1" "mutexes s ! k = Some t2"
    if "k \<in> {wi (workers s ! t1), wj (workers s ! t1)}" "k \<in> {wi (workers s ! t2), wj (workers s ! t2)}" for k
    using sys_inv_owns(2)[OF inv assms(3) _ p[OF assms(6)], of k]
      sys_inv_owns(2)[OF inv assms(4) _ p[OF assms(7)], of k] h[OF assms(6)] h[OF assms(7)] that
    by simp_all
  with assms(5) show ?thesis by fastforce
qed

text \<open>C4 (access discipline): when a worker reads or writes \<open>data[i]\<close> or \<open>data[j]\<close>
  (lines 63--69), both indices are in range and the worker holds both mutexes.\<close>

theorem access_under_lock:
  assumes "reachable opt s" and "valid_options opt" and "t < length (workers s)"
    and "pc (workers s ! t) \<in> {ReadI, WriteI, WriteJ}"
  shows "wi (workers s ! t) < length (data (buf s)) \<and> wj (workers s ! t) < length (data (buf s)) \<and>
         mutexes s ! wi (workers s ! t) = Some t \<and> mutexes s ! wj (workers s ! t) = Some t"
proof -
  have inv: "sys_inv s" using assms(1,2) by (rule reachable_inv)
  have "held (workers s ! t) = {wi (workers s ! t), wj (workers s ! t)}" "picked (pc (workers s ! t))"
    using assms(4) by (auto simp: held_def picked_def)
  with sys_inv_owns[OF inv assms(3)] show ?thesis by simp
qed

text \<open>C5 (no deadlock): in every reachable state of a run with valid options, either the
  coordinator has joined every worker or some step is possible: no set of workers waits
  forever in \<open>pthread_mutex_lock\<close> on mutexes held by one another, because a holder is
  never itself blocked.\<close>

theorem deadlock_free:
  assumes "reachable opt s" and "valid_options opt" and "\<not> finished s"
  shows "\<exists>s'. sys_step s s'"
proof -
  have inv: "sys_inv s" using assms(1,2) by (rule reachable_inv)
  let ?ws = "workers s"
  have work: "\<exists>s'. sys_step s s'" if "t < created s" "\<exists>s'. worker_step (0, 0) t s = Some s'" for t
    using that rand_ok_zero by (blast intro: sys_step.work)
  show ?thesis
  proof (cases "created s < length ?ws")
    case True
    then show ?thesis by (blast intro: sys_step.create)
  next
    case False
    then have cW: "created s = length ?ws" using sys_inv_len(4)[OF inv] by simp
    show ?thesis
    proof (cases "\<exists>t < length ?ws. pc (?ws ! t) \<noteq> Exit")
      case True
      then obtain t where t: "t < length ?ws" "pc (?ws ! t) \<noteq> Exit" by blast
      show ?thesis
      proof (cases "pc (?ws ! t) = LockJ")
        case False
        with t worker_step_enabled[OF inv t(1)] cW work show ?thesis by simp
      next
        case lj: True
        show ?thesis
        proof (cases "mutexes s ! wj (?ws ! t)")
          case None
          with lj lock_free_enabled cW t work show ?thesis by simp
        next
          case (Some u)
          have "worker_ok (length (data (buf s))) (data (buf s)) (?ws ! t)"
            using sys_inv_worker[OF inv t(1)] .
          then have k: "wj (?ws ! t) < length (data (buf s))" using lj by (simp add: worker_ok_def picked_def)
          from holder_not_waiting[OF inv k Some] worker_step_enabled[OF inv] cW work
          show ?thesis by simp
        qed
      qed
    next
      case False
      have "joined s \<le> created s" using inv by (simp add: sys_inv_def Let_def)
      then have "joined s < created s" using assms(3) cW by (simp add: finished_def)
      moreover have "pc (?ws ! joined s) = Exit" using False \<open>joined s < created s\<close> cW by auto
      ultimately show ?thesis using cW by (blast intro: sys_step.join)
    qed
  qed
qed

text \<open>C6 (refinement): seen through the committed view, each step of the concurrent
  system either changes nothing or exchanges two positions, the abstract \<open>list_swap\<close>.\<close>

theorem step_refines_swap:
  assumes "reachable opt s" and "valid_options opt" and "sys_step s s'"
  shows "committed s' = committed s \<or>
         (\<exists>i < length (committed s). \<exists>j < length (committed s).
            committed s' = list_swap (committed s) i j)"
  using sys_step_committed[OF reachable_inv[OF assms(1,2)] assms(3)] .

text \<open>C7 (every unlock of swap succeeds on the right mutex): in every state of a valid
  run, a created worker at one of the \<open>pthread_mutex_unlock\<close> calls of \<open>swap\<close> (line 53 on
  the back-off path, lines 73 and 76 after the swap) can always take that step, and the
  step frees exactly the mutex the code names: \<open>mutexes[j]\<close> at line 53, \<open>mutexes[i]\<close> at
  line 73, \<open>mutexes[j]\<close> at line 76 when \<open>i != j\<close>, and nothing when \<open>i = j\<close>. An unlock of
  a mutex the worker does not hold has no defined step, so this fails for a wrong index.\<close>

theorem unlock_by_owner:
  assumes "reachable opt s" and "valid_options opt" and "t < created s"
    and "pc (workers s ! t) \<in> {BackoffJ, UnlockI, UnlockJ}"
  shows "\<exists>s'. worker_step r t s = Some s' \<and>
           mutexes s' = (if pc (workers s ! t) = UnlockI then (mutexes s)[wi (workers s ! t) := None]
                         else if wi (workers s ! t) \<noteq> wj (workers s ! t)
                         then (mutexes s)[wj (workers s ! t) := None]
                         else mutexes s)"
proof -
  let ?w = "workers s ! t"
  have inv: "sys_inv s" using assms(1,2) by (rule reachable_inv)
  have tW: "t < length (workers s)" using assms(3) sys_inv_len(4)[OF inv] by simp
  have own: "mutexes s ! k = Some t" if "k \<in> held ?w" "picked (pc ?w)" for k
    using sys_inv_owns(2)[OF inv tW that] .
  have ok: "worker_ok (length (data (buf s))) (data (buf s)) ?w" using sys_inv_worker[OF inv tW] .
  show ?thesis
  proof (cases "pc ?w")
    case BackoffJ
    then have "mutexes s ! wj ?w = Some t" "wi ?w \<noteq> wj ?w"
      using own ok by (auto simp: held_def picked_def worker_ok_def)
    with BackoffJ show ?thesis by (simp add: worker_step_def Let_def mutex_unlock_def set_worker_def)
  next
    case UnlockI
    then have "mutexes s ! wi ?w = Some t" using own by (simp add: held_def picked_def)
    with UnlockI show ?thesis by (simp add: worker_step_def Let_def mutex_unlock_def set_worker_def)
  next
    case UnlockJ
    then have "wi ?w \<noteq> wj ?w \<Longrightarrow> mutexes s ! wj ?w = Some t" using own by (simp add: held_def picked_def)
    with UnlockJ show ?thesis by (simp add: worker_step_def Let_def mutex_unlock_def set_worker_def)
  qed (use assms(4) in simp_all)
qed

text \<open>C18 (refinement of runs): the committed view of every reachable state is the initial
  buffer after a finite sequence of exchanges of in-range positions: the concurrent
  program is simulated by the abstract machine that only swaps.\<close>

theorem reachable_refines_swaps:
  assumes "reachable opt s" and "valid_options opt"
  shows "\<exists>ps. (\<forall>p \<in> set ps. fst p < nat (buffer_size opt) \<and> snd p < nat (buffer_size opt)) \<and>
              committed s = apply_swaps (map int [0..<nat (buffer_size opt)]) ps"
  using assms
proof (induction rule: reachable.induct)
  case init
  have "committed (init_sys opt) = apply_swaps (map int [0..<nat (buffer_size opt)]) []"
    by (simp add: committed_def init_sys_def committed_val_def mutex_init_table_def Let_def)
  then show ?case by (intro exI[of _ "[]"]) simp
next
  case (step s s')
  obtain ps where ps: "\<forall>p \<in> set ps. fst p < nat (buffer_size opt) \<and> snd p < nat (buffer_size opt)"
    "committed s = apply_swaps (map int [0..<nat (buffer_size opt)]) ps"
    using step.IH step.prems by blast
  have "length (committed s) = nat (buffer_size opt)"
    using reachable_committed_perm[OF step.hyps(1) step.prems] by (metis length_map length_upt mset_eq_length minus_nat.diff_0)
  moreover note sys_step_committed[OF reachable_inv[OF step.hyps(1) step.prems] step.hyps(2)]
  ultimately show ?case
  proof (elim disjE exE conjE)
    assume "committed s' = committed s"
    with ps show ?thesis by auto
  next
    fix i j assume "i < length (committed s)" "j < length (committed s)"
      "committed s' = list_swap (committed s) i j" "length (committed s) = nat (buffer_size opt)"
    with ps have "\<forall>p \<in> set (ps @ [(i, j)]). fst p < nat (buffer_size opt) \<and> snd p < nat (buffer_size opt)"
      "committed s' = apply_swaps (map int [0..<nat (buffer_size opt)]) (ps @ [(i, j)])"
      by auto
    then show ?thesis by blast
  qed
qed

text \<open>C24 (identity swap): when a worker draws \<open>i = j\<close>, none of its steps changes the
  buffer (the two writes of lines 66 and 69 store back the value the slot holds), and it
  never takes the path of lines 49--54: it neither blocks in \<open>pthread_mutex_lock\<close> nor tries
  to lock its own mutex a second time, so the identity swap cannot lock the worker out.\<close>

theorem identity_swap:
  assumes "reachable opt s" and "valid_options opt" and "t < created s"
    and "wi (workers s ! t) = wj (workers s ! t)" and "worker_step r t s = Some s'"
  shows "data (buf s') = data (buf s) \<and> pc (workers s ! t) \<notin> {LockJ, TryI, BackoffJ}"
proof -
  have inv: "sys_inv s" using assms(1,2) by (rule reachable_inv)
  have tW: "t < length (workers s)" using assms(3) sys_inv_len(4)[OF inv] by simp
  have ok: "worker_ok (length (data (buf s))) (data (buf s)) (workers s ! t)"
    using sys_inv_worker[OF inv tW] .
  have "data (buf s') = data (buf s)"
  proof (cases "pc (workers s ! t) \<in> {WriteI, WriteJ}")
    case True
    then show ?thesis using assms(4,5) ok by (auto simp: step_unfold worker_ok_def picked_def)
  next
    case False
    then show ?thesis using worker_step_data[OF assms(5)] by simp
  qed
  moreover have "pc (workers s ! t) \<notin> {LockJ, TryI, BackoffJ}"
    using ok assms(4) by (auto simp: worker_ok_def)
  ultimately show ?thesis by blast
qed

text \<open>C32 (mutexes are held by live threads): in every state of a valid run, a mutex is held
  only by a thread that the coordinator has created and not yet joined; so the
  destruction loop, which runs after the last join, finds every mutex released.\<close>

theorem holders_are_live:
  assumes "reachable opt s" and "valid_options opt"
    and "k < length (mutexes s)" and "mutexes s ! k = Some u"
  shows "joined s \<le> u \<and> u < created s"
proof -
  have inv: "sys_inv s" using assms(1,2) by (rule reachable_inv)
  have k: "k < length (data (buf s))" using assms(3) sys_inv_len(3)[OF inv] by simp
  have uW: "u < length (workers s)" using sys_inv_holder[OF inv k assms(4)] .
  have "k \<in> held (workers s ! u)" using sys_inv_lock[OF inv uW k] assms(4) by simp
  then have p: "pc (workers s ! u) \<notin> {Loop, Exit}" by (auto simp: held_def)
  have "\<not> created s \<le> u" using inv uW p by (auto simp: sys_inv_def Let_def)
  moreover have "\<not> u < joined s" using inv p by (auto simp: sys_inv_def Let_def)
  ultimately show ?thesis by simp
qed

end
