(* ===== verification/Schedule.thy ===== *)
theory Schedule
  imports System
begin

text \<open>
  An executable reading of the system's steps: a schedule is a list of actions, each
  naming who moves (a created worker, with the two values its \<open>rand()\<close> calls return
  when it picks its indices; the coordinator creating the next thread; the coordinator
  joining the next one), and \<open>run\<close> executes it, \<open>None\<close> when an action is not
  enabled. A step of \<open>sys_step\<close> is exactly one enabled action, so every state a
  schedule reaches is reachable; concrete runs of the program are evaluated this way.
\<close>

datatype action = Work tid "int \<times> int" | Create | Join

fun exec_action :: "action \<Rightarrow> sys \<Rightarrow> sys option" where
  "exec_action (Work t r) s =
     (if t < created s \<and> rand_ok r then worker_step r t s else None)"
| "exec_action Create s =
     (if created s < length (workers s) then Some (s\<lparr>created := Suc (created s)\<rparr>) else None)"
| "exec_action Join s =
     (if created s = length (workers s) \<and> joined s < created s \<and> pc (workers s ! joined s) = Exit
      then Some (s\<lparr>joined := Suc (joined s)\<rparr>) else None)"

fun run :: "sys \<Rightarrow> action list \<Rightarrow> sys option" where
  "run s [] = Some s"
| "run s (a # as) = (case exec_action a s of None \<Rightarrow> None | Some s' \<Rightarrow> run s' as)"

lemma sys_step_iff_action: "sys_step s s' \<longleftrightarrow> (\<exists>a. exec_action a s = Some s')"
proof
  assume "sys_step s s'"
  then show "\<exists>a. exec_action a s = Some s'"
  proof (induction rule: sys_step.induct)
    case (work t s r s')
    then have "exec_action (Work t r) s = Some s'" by simp
    then show ?case by blast
  next
    case (create s)
    then have "exec_action Create s = Some (s\<lparr>created := Suc (created s)\<rparr>)" by simp
    then show ?case by blast
  next
    case (join s)
    then have "exec_action Join s = Some (s\<lparr>joined := Suc (joined s)\<rparr>)" by simp
    then show ?case by blast
  qed
next
  assume "\<exists>a. exec_action a s = Some s'"
  then obtain a where a: "exec_action a s = Some s'" by blast
  then show "sys_step s s'"
    by (cases a) (auto intro: sys_step.intros split: if_splits)
qed

lemma run_reachable: "run s as = Some s' \<Longrightarrow> reachable opt s \<Longrightarrow> reachable opt s'"
proof (induction s as rule: run.induct)
  case (1 s)
  then show ?case by simp
next
  case (2 s a as)
  then obtain s1 where s1: "exec_action a s = Some s1" and r: "run s1 as = Some s'"
    by (auto split: option.splits)
  from s1 have "sys_step s s1" using sys_step_iff_action by blast
  with "2.prems"(2) have "reachable opt s1" by (rule reachable.step)
  with s1 r show ?case by (rule "2.IH")
qed

lemma run_star: "run s as = Some s' \<Longrightarrow> sys_step\<^sup>*\<^sup>* s s'"
proof (induction s as rule: run.induct)
  case (2 s a as)
  then obtain s1 where s1: "exec_action a s = Some s1" and r: "run s1 as = Some s'"
    by (auto split: option.splits)
  from s1 have "sys_step s s1" using sys_step_iff_action by blast
  with "2.IH"[OF s1 r] show ?case by (meson converse_rtranclp_into_rtranclp)
qed simp

lemma run_append: "run s (as @ bs) = (case run s as of None \<Rightarrow> None | Some s' \<Rightarrow> run s' bs)"
  by (induction s as rule: run.induct) (auto split: option.splits)

text \<open>The definitions a concrete run unfolds.\<close>

lemmas run_eval = worker_step_def Let_def set_worker_def set_data_def mutex_lock_def
  mutex_trylock_def mutex_unlock_def rand_ok_def RAND_MAX_def init_sys_def init_worker_def
  mutex_init_table_def upt_rec finished_def valid_options_def replicate_Suc numeral_eq_Suc
  INT_MIN_def

text \<open>C10 (unlocked log read): the log line of line 45 reads \<open>data[i]\<close> and \<open>data[j]\<close>
  before the worker takes any mutex. There is a run with valid options in which a printed
  line shows the same value at two different positions, a buffer that is no permutation,
  because another worker is between its two writes: the reads race with the swap.\<close>

theorem torn_log_line:
  "\<exists>opt s. valid_options opt \<and> reachable opt s \<and>
     (\<exists>t i j v. (t, i, v, j, v) \<in> set (out s) \<and> i \<noteq> j)"
proof -
  let ?opt = "\<lparr>num_threads = 2, buffer_size = 2, iterations_opt = 1, delay_opt = 10\<rparr>"
  let ?as = "[Create, Create, Work 0 (0, 0), Work 0 (0, 1), Work 0 (0, 0), Work 0 (0, 0),
              Work 0 (0, 0), Work 0 (0, 0), Work 0 (0, 0),
              Work 1 (0, 0), Work 1 (0, 1), Work 1 (0, 0)]"
  have "\<exists>s. run (init_sys ?opt) ?as = Some s \<and> (1, 0, 1, 1, 1) \<in> set (out s)"
    by (simp add: run_eval)
  then obtain s where r: "run (init_sys ?opt) ?as = Some s" and l: "(1, 0, 1, 1, 1) \<in> set (out s)"
    by blast
  have "reachable ?opt s" using run_reachable[OF r reachable.init] .
  moreover have "valid_options ?opt" by (simp add: valid_options_def)
  moreover have "(0::nat) \<noteq> 1" by simp
  ultimately show ?thesis using l by blast
qed

text \<open>C11 (livelock): the back-off protocol of lines 49--54 is free of deadlock (C5) but not
  of livelock. There is a reachable state, with two workers that want the same two
  mutexes in opposite orders, and a schedule in which every worker moves, that returns to
  that very state; repeating it forever, no worker ever completes its swap.\<close>

theorem livelock_cycle:
  "\<exists>opt s as. valid_options opt \<and> reachable opt s \<and> \<not> finished s \<and>
     length (workers s) = 2 \<and> run s as = Some s \<and>
     (\<exists>r. Work 0 r \<in> set as) \<and> (\<exists>r. Work 1 r \<in> set as)"
proof -
  let ?opt = "\<lparr>num_threads = 2, buffer_size = 2, iterations_opt = 1, delay_opt = 10\<rparr>"
  let ?pre = "[Create, Create, Work 0 (0, 0), Work 0 (0, 1), Work 0 (0, 0),
               Work 1 (0, 0), Work 1 (1, 0), Work 1 (0, 0)]"
  let ?cyc = "[Work 0 (0, 0), Work 1 (0, 0), Work 0 (0, 0), Work 1 (0, 0), Work 0 (0, 0), Work 1 (0, 0)]"
  have "\<exists>s. run (init_sys ?opt) ?pre = Some s \<and> run s ?cyc = Some s \<and> \<not> finished s \<and>
            length (workers s) = 2"
    by (simp add: run_eval)
  then obtain s where r: "run (init_sys ?opt) ?pre = Some s" and c: "run s ?cyc = Some s"
    and nf: "\<not> finished s" and l: "length (workers s) = 2"
    by blast
  have "reachable ?opt s" using run_reachable[OF r reachable.init] .
  moreover have "valid_options ?opt" by (simp add: valid_options_def)
  moreover have "Work 0 (0, 0) \<in> set ?cyc" "Work 1 (0, 0) \<in> set ?cyc" by simp_all
  ultimately show ?thesis using c nf l by blast
qed

end
