(* ===== verification/Progress.thy ===== *)
theory Progress
  imports System
begin

text \<open>
  Liveness of the concurrent phase of \<^verbatim>\<open>src/swape2.c\<close> in its strongest form the code
  allows: not that every schedule ends (the back-off loop can livelock, see
  \<open>Schedule.livelock_cycle\<close>), but that from every reachable state some schedule ends the
  run. The schedule is built in four phases, each a lemma: create the remaining threads
  (\<open>create_all\<close>); let every worker that holds a mutex run until it holds none, which
  needs only its own steps since none of them blocks (\<open>drain_one\<close>, \<open>drain_prefix\<close>);
  with every mutex free, run each worker alone to its return, where every \<open>trylock\<close>
  succeeds (\<open>solo_finish\<close>, \<open>finish_prefix\<close>); join them in order (\<open>join_all\<close>).
  The ranks \<open>solo_rank\<close> and \<open>drain_rank\<close> are the measures of the two inner inductions.
\<close>

definition only_holder :: "sys \<Rightarrow> tid \<Rightarrow> bool" where
  "only_holder s t \<longleftrightarrow> (\<forall>k < length (mutexes s). mutexes s ! k = None \<or> mutexes s ! k = Some t)"

definition all_free :: "sys \<Rightarrow> bool" where
  "all_free s \<longleftrightarrow> (\<forall>k < length (mutexes s). mutexes s ! k = None)"

definition solo_pos :: "wpc \<Rightarrow> nat" where
  "solo_pos p = (case p of
      Exit \<Rightarrow> 0 | Loop \<Rightarrow> 1 | UnlockJ \<Rightarrow> 2 | UnlockI \<Rightarrow> 3 | WriteJ \<Rightarrow> 4 | WriteI \<Rightarrow> 5
    | ReadI \<Rightarrow> 6 | TryI \<Rightarrow> 7 | SpinI \<Rightarrow> 7 | LockJ \<Rightarrow> 8 | BackoffJ \<Rightarrow> 9 | Print \<Rightarrow> 9
    | Pick \<Rightarrow> 10)"

definition solo_rank :: "worker \<Rightarrow> nat" where
  "solo_rank w = (if pc w = Exit then 0 else 10 * nat (iterations w) + solo_pos (pc w))"

definition drain_rank :: "wpc \<Rightarrow> nat" where
  "drain_rank p = (case p of
      TryI \<Rightarrow> 7 | ReadI \<Rightarrow> 6 | WriteI \<Rightarrow> 5 | WriteJ \<Rightarrow> 4 | UnlockI \<Rightarrow> 3 | UnlockJ \<Rightarrow> 2
    | BackoffJ \<Rightarrow> 1 | _ \<Rightarrow> 0)"

lemma worker_step_others:
  "worker_step r t s = Some s' \<Longrightarrow> t < length (workers s) \<Longrightarrow> u \<noteq> t \<Longrightarrow> workers s' ! u = workers s ! u"
  by (subst worker_step_workers, assumption+) simp

lemma worker_step_only_holder:
  assumes "worker_step r t s = Some s'" and "only_holder s t"
  shows "only_holder s' t"
proof -
  have "mutexes s' ! k = None \<or> mutexes s' ! k = Some t" if k: "k < length (mutexes s')" for k
  proof (cases "mutexes s' ! k")
    case (Some u)
    have km: "k < length (mutexes s)" using k worker_step_shared[OF assms(1)] by simp
    show ?thesis
    proof (rule ccontr)
      assume "\<not> ?thesis"
      with Some have "u \<noteq> t" by simp
      with Some worker_step_other_holders[OF assms(1) this km] have "mutexes s ! k = Some u" by simp
      with assms(2) km \<open>u \<noteq> t\<close> show False by (auto simp: only_holder_def)
    qed
  qed simp
  then show ?thesis by (simp add: only_holder_def)
qed


lemma only_holder_free:
  assumes inv: "sys_inv s" and tW: "t < length (workers s)" and oh: "only_holder s t"
    and k: "k < length (data (buf s))" and nh: "k \<notin> held (workers s ! t)"
  shows "mutexes s ! k = None"
  using oh k nh sys_inv_lock[OF inv tW k] sys_inv_len(3)[OF inv] by (auto simp: only_holder_def)

lemma solo_step_rank:
  assumes inv: "sys_inv s" and tW: "t < length (workers s)" and oh: "only_holder s t"
    and step: "worker_step r t s = Some s'"
    and np: "pc (workers s ! t) \<noteq> Exit"
  shows "solo_rank (workers s' ! t) < solo_rank (workers s ! t)"
proof -
  let ?w = "workers s ! t"
  have ok: "worker_ok (length (data (buf s))) (data (buf s)) ?w" using sys_inv_worker[OF inv tW] .
  have free_i: "mutexes s ! wi ?w = None" if "pc ?w \<in> {TryI, SpinI}"
    using that ok only_holder_free[OF inv tW oh, of "wi ?w"]
    by (auto simp: worker_ok_def picked_def held_def)
  show ?thesis
    using step np ok free_i tW
    by (cases "pc ?w")
       (auto simp: worker_step_def Let_def set_worker_def set_data_def mutex_lock_def
          mutex_trylock_def mutex_unlock_def solo_rank_def solo_pos_def worker_ok_def picked_def
          nat_diff_distrib split: option.splits if_splits)
qed


lemma solo_enabled:
  assumes inv: "sys_inv s" and tW: "t < length (workers s)" and oh: "only_holder s t"
    and np: "pc (workers s ! t) \<noteq> Exit"
  shows "\<exists>s'. worker_step r t s = Some s'"
proof (cases "pc (workers s ! t) = LockJ")
  case True
  have "wj (workers s ! t) < length (data (buf s))"
    using sys_inv_worker[OF inv tW] True by (simp add: worker_ok_def picked_def)
  then have "mutexes s ! wj (workers s ! t) = None"
    using only_holder_free[OF inv tW oh] True by (simp add: held_def)
  with True show ?thesis by (rule lock_free_enabled)
next
  case False
  with np show ?thesis using worker_step_enabled[OF inv tW] by simp
qed

lemma work_step_star:
  "worker_step (0, 0) t s = Some s' \<Longrightarrow> t < created s \<Longrightarrow> sys_step\<^sup>*\<^sup>* s s'"
  using sys_step.work[OF _ rand_ok_zero] by blast

text \<open>A worker that is the only one holding mutexes runs alone to its return.\<close>

lemma solo_finish:
  assumes "sys_inv s" and "t < created s" and "only_holder s t"
  shows "\<exists>s'. sys_step\<^sup>*\<^sup>* s s' \<and> sys_inv s' \<and> pc (workers s' ! t) = Exit \<and> only_holder s' t \<and>
     (\<forall>u. u \<noteq> t \<longrightarrow> workers s' ! u = workers s ! u) \<and> created s' = created s \<and>
     joined s' = joined s \<and> length (workers s') = length (workers s)"
  using assms
proof (induction "solo_rank (workers s ! t)" arbitrary: s rule: less_induct)
  case less
  have tW: "t < length (workers s)" using less.prems(2) sys_inv_len(4)[OF less.prems(1)] by simp
  show ?case
  proof (cases "pc (workers s ! t) = Exit")
    case True
    with less.prems show ?thesis by blast
  next
    case False
    obtain s1 where st: "worker_step (0, 0) t s = Some s1"
      using solo_enabled[OF less.prems(1) tW less.prems(3) False] by blast
    have sh: "created s1 = created s" "joined s1 = joined s" "length (workers s1) = length (workers s)"
      using worker_step_shared[OF st] worker_step_workers[OF st tW] by (simp_all, metis length_list_update)
    have inv1: "sys_inv s1" using worker_step_inv[OF less.prems(1,2) st] .
    have oh1: "only_holder s1 t" using worker_step_only_holder[OF st less.prems(3)] .
    have lt: "solo_rank (workers s1 ! t) < solo_rank (workers s ! t)"
      using solo_step_rank[OF less.prems(1) tW less.prems(3) st False] .
    obtain s' where s': "sys_step\<^sup>*\<^sup>* s1 s'" "sys_inv s'" "pc (workers s' ! t) = Exit" "only_holder s' t"
      "\<forall>u. u \<noteq> t \<longrightarrow> workers s' ! u = workers s1 ! u" "created s' = created s1"
      "joined s' = joined s1" "length (workers s') = length (workers s1)"
      using less.hyps[OF lt inv1 _ oh1] less.prems(2) sh by auto
    have "sys_step\<^sup>*\<^sup>* s s'" using work_step_star[OF st less.prems(2)] s'(1) by simp
    moreover have "\<forall>u. u \<noteq> t \<longrightarrow> workers s' ! u = workers s ! u"
      using s'(5) worker_step_others[OF st tW] by simp
    ultimately show ?thesis using s' sh by auto
  qed
qed


lemma drain_step_rank:
  assumes "worker_step r u s = Some s'" and "u < length (workers s)"
    and "held (workers s ! u) \<noteq> {}"
  shows "drain_rank (pc (workers s' ! u)) < drain_rank (pc (workers s ! u))"
  using assms
  by (cases "pc (workers s ! u)")
     (auto simp: worker_step_def Let_def set_worker_def set_data_def mutex_lock_def
        mutex_trylock_def mutex_unlock_def drain_rank_def held_def split: option.splits if_splits)

lemma held_not_waiting: "held w \<noteq> {} \<Longrightarrow> pc w \<notin> {LockJ, Exit}"
  by (auto simp: held_def)

text \<open>A worker that holds mutexes releases all of them within its own steps.\<close>

lemma drain_one:
  assumes "sys_inv s" and "u < created s"
  shows "\<exists>s'. sys_step\<^sup>*\<^sup>* s s' \<and> sys_inv s' \<and> held (workers s' ! u) = {} \<and>
     (\<forall>v. v \<noteq> u \<longrightarrow> workers s' ! v = workers s ! v) \<and> created s' = created s \<and>
     joined s' = joined s \<and> length (workers s') = length (workers s)"
  using assms
proof (induction "drain_rank (pc (workers s ! u))" arbitrary: s rule: less_induct)
  case less
  have uW: "u < length (workers s)" using less.prems(2) sys_inv_len(4)[OF less.prems(1)] by simp
  show ?case
  proof (cases "held (workers s ! u) = {}")
    case True
    with less.prems show ?thesis by blast
  next
    case False
    obtain s1 where st: "worker_step (0, 0) u s = Some s1"
      using worker_step_enabled[OF less.prems(1) uW] held_not_waiting[OF False] by blast
    have sh: "created s1 = created s" "joined s1 = joined s" "length (workers s1) = length (workers s)"
      using worker_step_shared[OF st] worker_step_workers[OF st uW] by (simp_all, metis length_list_update)
    have inv1: "sys_inv s1" using worker_step_inv[OF less.prems(1,2) st] .
    have lt: "drain_rank (pc (workers s1 ! u)) < drain_rank (pc (workers s ! u))"
      using drain_step_rank[OF st uW False] .
    obtain s' where s': "sys_step\<^sup>*\<^sup>* s1 s'" "sys_inv s'" "held (workers s' ! u) = {}"
      "\<forall>v. v \<noteq> u \<longrightarrow> workers s' ! v = workers s1 ! v" "created s' = created s1"
      "joined s' = joined s1" "length (workers s') = length (workers s1)"
      using less.hyps[OF lt inv1] less.prems(2) sh by auto
    have "sys_step\<^sup>*\<^sup>* s s'" using work_step_star[OF st less.prems(2)] s'(1) by simp
    moreover have "\<forall>v. v \<noteq> u \<longrightarrow> workers s' ! v = workers s ! v"
      using s'(4) worker_step_others[OF st uW] by simp
    ultimately show ?thesis using s' sh by auto
  qed
qed

lemma drain_prefix:
  assumes "sys_inv s" and "created s = length (workers s)" and "k \<le> length (workers s)"
  shows "\<exists>s'. sys_step\<^sup>*\<^sup>* s s' \<and> sys_inv s' \<and> (\<forall>u < k. held (workers s' ! u) = {}) \<and>
     created s' = created s \<and> joined s' = joined s \<and> length (workers s') = length (workers s)"
  using assms(3)
proof (induction k)
  case 0
  with assms(1) show ?case by blast
next
  case (Suc k)
  then obtain s1 where s1: "sys_step\<^sup>*\<^sup>* s s1" "sys_inv s1" "\<forall>u < k. held (workers s1 ! u) = {}"
    "created s1 = created s" "joined s1 = joined s" "length (workers s1) = length (workers s)"
    by auto
  have "k < created s1" using Suc.prems s1(4,6) assms(2) by simp
  from drain_one[OF s1(2) this] obtain s' where s': "sys_step\<^sup>*\<^sup>* s1 s'" "sys_inv s'"
    "held (workers s' ! k) = {}" "\<forall>v. v \<noteq> k \<longrightarrow> workers s' ! v = workers s1 ! v"
    "created s' = created s1" "joined s' = joined s1" "length (workers s') = length (workers s1)"
    by blast
  have "\<forall>u < Suc k. held (workers s' ! u) = {}"
    using s'(3,4) s1(3) by (auto simp: less_Suc_eq)
  moreover have "sys_step\<^sup>*\<^sup>* s s'" using s1(1) s'(1) by simp
  ultimately show ?case using s' s1 by auto
qed

lemma nothing_held_unlocked:
  assumes "sys_inv s" and "\<forall>u < length (workers s). held (workers s ! u) = {}"
    and "k < length (data (buf s))"
  shows "mutexes s ! k = None"
proof (cases "mutexes s ! k")
  case (Some u)
  have u: "u < length (workers s)" using sys_inv_holder[OF assms(1,3) Some] .
  with sys_inv_lock[OF assms(1) u assms(3)] Some assms(2) show ?thesis by simp
qed


lemma all_free_only_holder: "all_free s \<Longrightarrow> only_holder s t"
  by (simp add: all_free_def only_holder_def)

lemma exited_only_holder_all_free:
  assumes "sys_inv s" and "t < length (workers s)" and "only_holder s t" and "pc (workers s ! t) = Exit"
  shows "all_free s"
  using only_holder_free[OF assms(1-3)] assms(4) sys_inv_len(3)[OF assms(1)]
  by (simp add: all_free_def held_def)

lemma finish_prefix:
  assumes "sys_inv s" and "created s = length (workers s)" and "all_free s"
    and "k \<le> length (workers s)"
  shows "\<exists>s'. sys_step\<^sup>*\<^sup>* s s' \<and> sys_inv s' \<and> all_free s' \<and> (\<forall>u < k. pc (workers s' ! u) = Exit) \<and>
     created s' = created s \<and> joined s' = joined s \<and> length (workers s') = length (workers s)"
  using assms(4)
proof (induction k)
  case 0
  with assms(1,3) show ?case by blast
next
  case (Suc k)
  then obtain s1 where s1: "sys_step\<^sup>*\<^sup>* s s1" "sys_inv s1" "all_free s1"
    "\<forall>u < k. pc (workers s1 ! u) = Exit"
    "created s1 = created s" "joined s1 = joined s" "length (workers s1) = length (workers s)"
    by auto
  have k: "k < created s1" using Suc.prems s1(5,7) assms(2) by simp
  from solo_finish[OF s1(2) k all_free_only_holder[OF s1(3)]] obtain s' where s':
    "sys_step\<^sup>*\<^sup>* s1 s'" "sys_inv s'" "pc (workers s' ! k) = Exit" "only_holder s' k"
    "\<forall>u. u \<noteq> k \<longrightarrow> workers s' ! u = workers s1 ! u" "created s' = created s1"
    "joined s' = joined s1" "length (workers s') = length (workers s1)"
    by blast
  have "k < length (workers s')" using k s'(8) s1(5,7) assms(2) by simp
  then have "all_free s'" using exited_only_holder_all_free[OF s'(2) _ s'(4,3)] by simp
  moreover have "\<forall>u < Suc k. pc (workers s' ! u) = Exit"
    using s'(3,5) s1(4) by (auto simp: less_Suc_eq)
  moreover have "sys_step\<^sup>*\<^sup>* s s'" using s1(1) s'(1) by simp
  ultimately show ?case using s' s1 by auto
qed

lemma create_all:
  assumes "sys_inv s"
  shows "\<exists>s'. sys_step\<^sup>*\<^sup>* s s' \<and> sys_inv s' \<and> created s' = length (workers s')"
  using assms
proof (induction "length (workers s) - created s" arbitrary: s)
  case 0
  then show ?case using sys_inv_len(4)[OF "0.prems"] by fastforce
next
  case (Suc d)
  let ?s1 = "s\<lparr>created := Suc (created s)\<rparr>"
  have lt: "created s < length (workers s)" using Suc.hyps(2) by simp
  then have st: "sys_step s ?s1" by (rule sys_step.create)
  have inv1: "sys_inv ?s1" using sys_step_inv[OF st Suc.prems] .
  have "d = length (workers ?s1) - created ?s1" using Suc.hyps(2) by simp
  from Suc.hyps(1)[OF this inv1] obtain s' where "sys_step\<^sup>*\<^sup>* ?s1 s'" "sys_inv s'"
    "created s' = length (workers s')" by blast
  with st show ?case by (meson converse_rtranclp_into_rtranclp)
qed

lemma join_all:
  assumes "sys_inv s" and "created s = length (workers s)"
    and "\<forall>u < length (workers s). pc (workers s ! u) = Exit"
  shows "\<exists>s'. sys_step\<^sup>*\<^sup>* s s' \<and> finished s'"
  using assms
proof (induction "length (workers s) - joined s" arbitrary: s)
  case 0
  have "joined s \<le> length (workers s)"
    using "0.prems"(1,2) by (simp add: sys_inv_def Let_def)
  with "0.hyps" show ?case by (auto simp: finished_def)
next
  case (Suc d)
  let ?s1 = "s\<lparr>joined := Suc (joined s)\<rparr>"
  have lt: "joined s < created s" using Suc.hyps(2) Suc.prems(2) by simp
  have st: "sys_step s ?s1"
    using Suc.prems(2,3) lt by (intro sys_step.join) auto
  have inv1: "sys_inv ?s1" using sys_step_inv[OF st Suc.prems(1)] .
  have "d = length (workers ?s1) - joined ?s1" using Suc.hyps(2) by simp
  from Suc.hyps(1)[OF this inv1] Suc.prems(2,3) obtain s' where "sys_step\<^sup>*\<^sup>* ?s1 s'" "finished s'"
    by auto
  with st show ?case by (meson converse_rtranclp_into_rtranclp)
qed

lemma completion_from_inv:
  assumes inv: "sys_inv s"
  shows "\<exists>s'. sys_step\<^sup>*\<^sup>* s s' \<and> finished s'"
proof -
  obtain s1 where s1: "sys_step\<^sup>*\<^sup>* s s1" "sys_inv s1" "created s1 = length (workers s1)"
    using create_all[OF inv] by blast
  obtain s2 where s2: "sys_step\<^sup>*\<^sup>* s1 s2" "sys_inv s2" "\<forall>u < length (workers s1). held (workers s2 ! u) = {}"
    "created s2 = created s1" "length (workers s2) = length (workers s1)"
    using drain_prefix[OF s1(2,3) order_refl] by blast
  have free2: "all_free s2"
    using nothing_held_unlocked[OF s2(2)] s2(3,5) sys_inv_len(3)[OF s2(2)] by (simp add: all_free_def)
  have c2: "created s2 = length (workers s2)" using s1(3) s2(4,5) by simp
  obtain s3 where s3: "sys_step\<^sup>*\<^sup>* s2 s3" "sys_inv s3" "\<forall>u < length (workers s2). pc (workers s3 ! u) = Exit"
    "created s3 = created s2" "length (workers s3) = length (workers s2)"
    using finish_prefix[OF s2(2) c2 free2 order_refl] by blast
  obtain s4 where s4: "sys_step\<^sup>*\<^sup>* s3 s4" "finished s4"
    using join_all[OF s3(2)] s3(3-5) c2 by auto
  have "sys_step\<^sup>*\<^sup>* s s4" using s1(1) s2(1) s3(1) s4(1) by (meson rtranclp_trans)
  with s4(2) show ?thesis by blast
qed

text \<open>C13 (completion stays possible): from every reachable state of a run with valid
  options there is a schedule that completes the run: all threads created, every
  worker's remaining swaps done, all of them joined. Neither the blocking lock nor the
  back-off nor the spin of \<open>swap\<close> can reach a state from which the program cannot end.\<close>

theorem completion_reachable:
  assumes "reachable opt s" and "valid_options opt"
  shows "\<exists>s'. sys_step\<^sup>*\<^sup>* s s' \<and> finished s'"
  using completion_from_inv[OF reachable_inv[OF assms]] .

end
