(* ===== verification/Coordinator.thy ===== *)
theory Coordinator
  imports Progress
begin

text \<open>
  The sequential parts of \<open>start_threads\<close> in \<^verbatim>\<open>src/swape2.c\<close> around the concurrent
  phase, and the whole program. What the operating system decides (whether each
  \<open>malloc\<close>, \<open>pthread_mutex_init\<close> and \<open>pthread_create\<close> succeeds, and what a fresh
  allocation contains) is an environment record \<open>env\<close>. \<open>start_setup\<close> is lines
  110--141: the buffer allocation (exit on failure), its initialisation loop, the mutex
  creation loop with its messages (a failed initialisation is only reported), and the
  allocation of the thread and argument arrays (exit on failure). \<open>destroy_msgs\<close> is the
  destruction loop of lines 183--187. \<open>program\<close> relates options and environment to the
  outcomes of a run: an exit with status 1 (at set-up or when \<open>pthread_create\<close> of some
  thread fails in the creation loop, lines 153--156), or a completed run with its final
  state, the verdict of \<open>checkBuffer\<close> printed at lines 171--174 and the messages of the
  destruction loop; \<open>exit_code\<close> is the status the process ends with.
\<close>

record env =
  buffer_alloc_ok :: bool
  fresh :: "nat \<Rightarrow> int"
  mutex_init_ok :: "nat \<Rightarrow> bool"
  threads_alloc_ok :: bool
  args_alloc_ok :: bool
  create_ok :: "nat \<Rightarrow> bool"

datatype abort_reason = OutOfMemory | NotEnoughMemory | CouldNotCreateThread nat

datatype message = MutexCreated nat | MutexInitFailed | MutexDestroyFailed

datatype outcome =
    Aborted abort_reason
  | Completed sys "bool option" "message list"

definition mutex_msgs :: "options \<Rightarrow> env \<Rightarrow> message list" where
  "mutex_msgs opt e =
     map (\<lambda>k. if mutex_init_ok e k then MutexCreated k else MutexInitFailed) [0..<nat (buffer_size opt)]"

definition start_setup :: "options \<Rightarrow> env \<Rightarrow> abort_reason + (sys \<times> message list)" where
  "start_setup opt e =
     (let n = nat (buffer_size opt); w = nat (num_threads opt) in
      if \<not> buffer_alloc_ok e then Inl OutOfMemory
      else
        (let b = \<lparr>data = init_loop 0 (map (fresh e) [0..<n]), bsize = buffer_size opt\<rparr>;
             msgs = mutex_msgs opt e
         in if \<not> (threads_alloc_ok e \<and> args_alloc_ok e) then Inl NotEnoughMemory
            else Inr (\<lparr>buf = b, mutexes = mutex_init_table n,
                       workers = map (init_worker opt) [0..<w],
                       created = 0, joined = 0, out = []\<rparr>, msgs)))"

definition destroy_msgs :: "sys \<Rightarrow> message list" where
  "destroy_msgs s =
     concat (map (\<lambda>k. if mutex_destroy (mutexes s) k \<noteq> 0 then [MutexDestroyFailed] else [])
                 [0..<nat (bsize (buf s))])"

inductive program :: "options \<Rightarrow> env \<Rightarrow> outcome \<Rightarrow> bool" where
  setup_fails: "start_setup opt e = Inl r \<Longrightarrow> program opt e (Aborted r)"
| create_fails: "start_setup opt e = Inr (s0, ms) \<Longrightarrow> sys_step\<^sup>*\<^sup>* s0 s \<Longrightarrow>
    created s < length (workers s) \<Longrightarrow> (\<forall>j < created s. create_ok e j) \<Longrightarrow>
    \<not> create_ok e (created s) \<Longrightarrow>
    program opt e (Aborted (CouldNotCreateThread (created s)))"
| completes: "start_setup opt e = Inr (s0, ms) \<Longrightarrow> sys_step\<^sup>*\<^sup>* s0 s \<Longrightarrow> finished s \<Longrightarrow>
    (\<forall>i < nat (num_threads opt). create_ok e i) \<Longrightarrow>
    program opt e (Completed s (checkBuffer (buf s)) (destroy_msgs s))"

fun exit_code :: "outcome \<Rightarrow> int" where
  "exit_code (Aborted _) = 1"
| "exit_code (Completed _ _ _) = 0"

definition env_ok :: "options \<Rightarrow> env \<Rightarrow> bool" where
  "env_ok opt e \<longleftrightarrow> buffer_alloc_ok e \<and> threads_alloc_ok e \<and> args_alloc_ok e \<and>
     (\<forall>i < nat (num_threads opt). create_ok e i)"

subsection \<open>Set-up, tear-down and runs\<close>

lemma start_setup_ok:
  assumes "valid_options opt" and "buffer_alloc_ok e" and "threads_alloc_ok e" and "args_alloc_ok e"
  shows "start_setup opt e =
    Inr (init_sys opt, map (\<lambda>k. if mutex_init_ok e k then MutexCreated k else MutexInitFailed)
                          [0..<nat (buffer_size opt)])"
  using assms by (simp add: start_setup_def mutex_msgs_def init_sys_def init_loop_from_0 valid_options_def Let_def)

lemma start_setup_Inr:
  assumes "valid_options opt" and "start_setup opt e = Inr (s0, ms)"
  shows "s0 = init_sys opt" and "buffer_alloc_ok e \<and> threads_alloc_ok e \<and> args_alloc_ok e"
proof -
  have ok: "buffer_alloc_ok e \<and> threads_alloc_ok e \<and> args_alloc_ok e"
    using assms(2) by (auto simp: start_setup_def Let_def split: if_splits)
  then show "buffer_alloc_ok e \<and> threads_alloc_ok e \<and> args_alloc_ok e" .
  show "s0 = init_sys opt" using assms(2) start_setup_ok[OF assms(1)] ok by simp
qed

lemma star_reachable: "sys_step\<^sup>*\<^sup>* s s' \<Longrightarrow> reachable opt s \<Longrightarrow> reachable opt s'"
  by (induction rule: rtranclp_induct) (auto intro: reachable.step)

lemma star_workers_length: "sys_step\<^sup>*\<^sup>* s s' \<Longrightarrow> length (workers s') = length (workers s)"
proof (induction rule: rtranclp_induct)
  case (step s1 s2)
  from step.hyps(2) have "length (workers s2) = length (workers s1)"
  proof (cases rule: sys_step.cases)
    case (work t r)
    then show ?thesis using worker_step_shared[of r t s1 s2]
      by (cases "t < length (workers s1)")
         (auto simp: worker_step_def Let_def set_worker_def set_data_def split: wpc.splits option.splits
            sum.splits prod.splits if_splits)
  qed simp_all
  with step.IH show ?case by simp
qed simp

lemma create_steps:
  "created s + d \<le> length (workers s) \<Longrightarrow> sys_step\<^sup>*\<^sup>* s (s\<lparr>created := created s + d\<rparr>)"
proof (induction d)
  case (Suc d)
  then have "sys_step\<^sup>*\<^sup>* s (s\<lparr>created := created s + d\<rparr>)" by simp
  moreover have "sys_step (s\<lparr>created := created s + d\<rparr>) (s\<lparr>created := created s + Suc d\<rparr>)"
    using Suc.prems sys_step.create[of "s\<lparr>created := created s + d\<rparr>"] by simp
  ultimately show ?case by simp
qed simp

lemma destroy_msgs_finished:
  assumes "sys_inv s" and "finished s"
  shows "destroy_msgs s = []"
  using finished_unlocked[OF assms] sys_inv_len(2)[OF assms(1)]
  by (simp add: destroy_msgs_def mutex_destroy_def)

inductive_cases program_CompletedE: "program opt e (Completed s v ms)"

lemma completed_reachable:
  assumes "program opt e (Completed s v ms)" and "valid_options opt"
  shows "reachable opt s" and "finished s" and "v = checkBuffer (buf s)" and "ms = destroy_msgs s"
proof -
  obtain s0 ms' where c: "start_setup opt e = Inr (s0, ms')" "sys_step\<^sup>*\<^sup>* s0 s" "finished s"
    "v = checkBuffer (buf s)" "ms = destroy_msgs s"
    using assms(1) by (auto elim: program_CompletedE)
  have "s0 = init_sys opt" using start_setup_Inr(1)[OF assms(2) c(1)] .
  with c(2) have "sys_step\<^sup>*\<^sup>* (init_sys opt) s" by simp
  then show "reachable opt s" by (rule star_reachable[OF _ reachable.init])
  show "finished s" "v = checkBuffer (buf s)" "ms = destroy_msgs s" using c by simp_all
qed

lemma completed_run_exists:
  assumes "valid_options opt" and "env_ok opt e"
  shows "\<exists>s. program opt e (Completed s (checkBuffer (buf s)) []) \<and> reachable opt s \<and> finished s"
proof -
  obtain s where s: "sys_step\<^sup>*\<^sup>* (init_sys opt) s" "finished s"
    using completion_from_inv[OF sys_inv_init[OF assms(1)]] by blast
  have r: "reachable opt s" using star_reachable[OF s(1) reachable.init] .
  have inv: "sys_inv s" using r assms(1) by (rule reachable_inv)
  have st0: "start_setup opt e = Inr (init_sys opt,
      map (\<lambda>k. if mutex_init_ok e k then MutexCreated k else MutexInitFailed) [0..<nat (buffer_size opt)])"
    using start_setup_ok[OF assms(1)] assms(2) by (simp add: env_ok_def)
  have "program opt e (Completed s (checkBuffer (buf s)) (destroy_msgs s))"
    using program.completes[OF st0 s] assms(2) by (simp add: env_ok_def)
  then show ?thesis using destroy_msgs_finished[OF inv s(2)] r s(2) by auto
qed

subsection \<open>Properties of the whole program\<close>

text \<open>C14 (whole run): a run of the program that gets past every \<open>exit(1)\<close> ends with the
  buffer a permutation of \<open>0 .. N-1\<close>, prints no "mutex destroy failed", and prints the
  verdict "Correct buffer" exactly when \<open>N = 10\<close> (for \<open>N \<le> 65536\<close>; above that the
  check's sum overflows).\<close>

theorem program_completed_correct:
  assumes "program opt e (Completed s v ms)" and "valid_options opt"
  shows "is_perm_upto (data (buf s)) (nat (buffer_size opt)) \<and> ms = [] \<and>
         (nat (buffer_size opt) \<le> 65536 \<longrightarrow> v = Some (nat (buffer_size opt) = 10)) \<and>
         (65536 < nat (buffer_size opt) \<longrightarrow> v = None)"
proof -
  note c = completed_reachable[OF assms]
  have inv: "sys_inv s" using c(1) assms(2) by (rule reachable_inv)
  note f = finished_perm_facts[OF c(1) assms(2) c(2)]
  have "ms = []" using c(4) destroy_msgs_finished[OF inv c(2)] by simp
  moreover have "nat (buffer_size opt) \<le> 65536 \<longrightarrow> v = Some (nat (buffer_size opt) = 10)"
    using f c(3) checkBuffer_perm[of "buf s" "nat (buffer_size opt)"] by auto
  moreover have "65536 < nat (buffer_size opt) \<longrightarrow> v = None"
    using f c(3) checkBuffer_overflow[of "buf s" "nat (buffer_size opt)"] by auto
  ultimately show ?thesis using f by blast
qed

text \<open>C15 (exit status 1): with valid options, the program can end with \<open>exit(1)\<close> exactly
  when the environment makes one of its calls fail: the buffer allocation (line 113), the
  thread or argument array allocation (line 134), or \<open>pthread_create\<close> of some thread
  (line 155). A failed \<open>pthread_mutex_init\<close> never stops it.\<close>

theorem program_aborts_iff:
  assumes "valid_options opt"
  shows "(\<exists>r. program opt e (Aborted r)) \<longleftrightarrow> \<not> env_ok opt e"
proof
  assume "\<exists>r. program opt e (Aborted r)"
  then obtain r where p: "program opt e (Aborted r)" by blast
  show "\<not> env_ok opt e"
  proof (cases rule: program.cases[OF p])
    case (1 opt' e' r')
    then have "\<not> (buffer_alloc_ok e \<and> threads_alloc_ok e \<and> args_alloc_ok e)"
      using start_setup_ok[OF assms] by auto
    then show ?thesis by (auto simp: env_ok_def)
  next
    case (2 opt' e' s0 ms s)
    then have "s0 = init_sys opt" using start_setup_Inr(1)[OF assms] by simp
    then have "length (workers s) = nat (num_threads opt)"
      using star_workers_length[of s0 s] 2 by (simp add: init_sys_def Let_def)
    with 2 show ?thesis by (auto simp: env_ok_def)
  qed simp
next
  assume ne: "\<not> env_ok opt e"
  show "\<exists>r. program opt e (Aborted r)"
  proof (cases "buffer_alloc_ok e \<and> threads_alloc_ok e \<and> args_alloc_ok e")
    case False
    then have "\<exists>r. start_setup opt e = Inl r"
      by (cases "buffer_alloc_ok e") (simp_all add: start_setup_def Let_def)
    then obtain r where "start_setup opt e = Inl r" by blast
    then show ?thesis by (blast intro: program.setup_fails)
  next
    case True
    let ?P = "\<lambda>i. i < nat (num_threads opt) \<and> \<not> create_ok e i"
    have "\<exists>i. ?P i" using ne True by (auto simp: env_ok_def)
    then obtain i where i: "?P i" and least: "\<forall>j < i. \<not> ?P j"
      using exists_least_iff[of ?P] by blast
    let ?s = "(init_sys opt)\<lparr>created := i\<rparr>"
    have w: "length (workers (init_sys opt)) = nat (num_threads opt)"
      by (simp add: init_sys_def Let_def)
    have "sys_step\<^sup>*\<^sup>* (init_sys opt) ?s"
      using create_steps[of "init_sys opt" i] i w by (simp add: init_sys_def Let_def)
    moreover have "start_setup opt e = Inr (init_sys opt,
        map (\<lambda>k. if mutex_init_ok e k then MutexCreated k else MutexInitFailed) [0..<nat (buffer_size opt)])"
      using start_setup_ok[OF assms] True by simp
    moreover have "\<forall>j < created ?s. create_ok e j" using least i by auto
    ultimately have "program opt e (Aborted (CouldNotCreateThread (created ?s)))"
      using i w by (intro program.create_fails) auto
    then show ?thesis by blast
  qed
qed

text \<open>C16 (a run can complete): with valid options and an environment in which every
  call succeeds, the program has a run that completes, with the verdict of
  \<open>checkBuffer\<close> printed and no mutex destruction failure.\<close>

theorem program_can_complete:
  assumes "valid_options opt" and "env_ok opt e"
  shows "\<exists>s. program opt e (Completed s (checkBuffer (buf s)) [])"
  using completed_run_exists[OF assms] by blast

text \<open>C27 (run with the default options): with the options \<open>main\<close> sets before reading
  the command line (10 threads, 10 slots, 100 iterations) and every call succeeding, the
  program completes, and every completed run ends with a permutation of \<open>0 .. 9\<close>, no
  destruction failure and the verdict "Correct buffer".\<close>

theorem default_run_correct:
  assumes "env_ok default_options e"
  shows "(\<exists>s. program default_options e (Completed s (Some True) [])) \<and>
         (\<forall>s v ms. program default_options e (Completed s v ms) \<longrightarrow>
            v = Some True \<and> ms = [] \<and> is_perm_upto (data (buf s)) 10)"
proof -
  have vo: "valid_options default_options" by (simp add: valid_options_def default_options_def)
  have n: "nat (buffer_size default_options) = 10" by (simp add: default_options_def)
  have ok: "checkBuffer (buf s) = Some True \<and> is_perm_upto (data (buf s)) 10"
    if "reachable default_options s" "finished s" for s
    using finished_perm_facts[OF that(1) vo that(2)] checkBuffer_perm[of "buf s" 10] n by simp
  obtain s where s: "program default_options e (Completed s (checkBuffer (buf s)) [])"
    "reachable default_options s" "finished s"
    using completed_run_exists[OF vo assms] by blast
  have "\<exists>s. program default_options e (Completed s (Some True) [])"
    using s ok[OF s(2,3)] by auto
  moreover have "v = Some True \<and> ms = [] \<and> is_perm_upto (data (buf s)) 10"
    if p: "program default_options e (Completed s v ms)" for s v ms
  proof -
    note c = completed_reachable[OF p vo]
    have inv: "sys_inv s" using c(1) vo by (rule reachable_inv)
    show ?thesis using ok[OF c(1,2)] c(3,4) destroy_msgs_finished[OF inv c(2)] by simp
  qed
  ultimately show ?thesis by blast
qed

end
