(* ===== verification/Log.thy ===== *)
theory Log
  imports Progress
begin

text \<open>
  The log of \<^verbatim>\<open>src/swape2.c\<close>: each iteration of the loop of \<open>swap\<close> prints one line
  (line 45), and \<open>out\<close> collects the lines of all workers in the order they are printed.
  \<open>lines_of s t\<close> counts worker \<open>t\<close>'s lines; the invariant \<open>log_inv\<close> ties it to the
  worker's remaining iteration count, with one line still pending between the decrement of
  line 39 and the print. A finished run has printed exactly \<open>iterations\<close> lines per worker.
\<close>

definition lines_of :: "sys \<Rightarrow> tid \<Rightarrow> nat" where
  "lines_of s t = length (filter (\<lambda>l. fst l = t) (out s))"

definition pending_line :: "wpc \<Rightarrow> int" where
  "pending_line p = (if p \<in> {Pick, Print, Exit} then 1 else 0)"

definition log_inv :: "options \<Rightarrow> sys \<Rightarrow> bool" where
  "log_inv opt s \<longleftrightarrow> (\<forall>t < length (workers s).
     int (lines_of s t) = iterations_opt opt - iterations (workers s ! t) - pending_line (pc (workers s ! t)))"

lemma worker_step_out:
  "worker_step r t s = Some s' \<Longrightarrow>
   out s' = (if pc (workers s ! t) = Print
             then out s @ [(thread_num (workers s ! t), wi (workers s ! t), data (buf s) ! wi (workers s ! t),
                            wj (workers s ! t), data (buf s) ! wj (workers s ! t))]
             else out s)"
  by (cases "pc (workers s ! t)")
     (auto simp: step_unfold split: option.splits if_splits prod.splits sum.splits)

lemma worker_step_count:
  "worker_step r t s = Some s' \<Longrightarrow> t < length (workers s) \<Longrightarrow>
   iterations (workers s' ! t) + pending_line (pc (workers s' ! t)) =
   iterations (workers s ! t) + pending_line (pc (workers s ! t)) - (if pc (workers s ! t) = Print then 1 else 0)"
  by (cases "pc (workers s ! t)")
     (auto simp: step_unfold pending_line_def split: option.splits if_splits prod.splits sum.splits)

lemma worker_step_log_inv:
  assumes inv: "sys_inv s" and li: "log_inv opt s" and t: "t < created s"
    and st: "worker_step r t s = Some s'"
  shows "log_inv opt s'"
proof -
  have tW: "t < length (workers s)" using t sys_inv_len(4)[OF inv] by simp
  have num: "thread_num (workers s ! t) = t" using inv tW by (simp add: sys_inv_def Let_def)
  have len: "length (workers s') = length (workers s)"
    using worker_step_workers[OF st tW] by (metis length_list_update)
  have lines: "lines_of s' u = lines_of s u + (if pc (workers s ! t) = Print \<and> u = t then 1 else 0)" for u
    using worker_step_out[OF st] num by (auto simp: lines_of_def)
  show ?thesis unfolding log_inv_def
  proof (intro allI impI)
    fix u assume u: "u < length (workers s')"
    show "int (lines_of s' u) = iterations_opt opt - iterations (workers s' ! u) - pending_line (pc (workers s' ! u))"
    proof (cases "u = t")
      case True
      then show ?thesis using li tW worker_step_count[OF st tW] lines[of t]
        by (auto simp: log_inv_def)
    next
      case False
      then show ?thesis using li u len worker_step_others[OF st tW False] lines[of u]
        by (simp add: log_inv_def)
    qed
  qed
qed

lemma sys_step_log_inv:
  assumes "sys_step s s'" and "sys_inv s" and "log_inv opt s"
  shows "log_inv opt s'"
  using assms
proof (induction rule: sys_step.induct)
  case (work t s r s')
  then show ?case by (blast intro: worker_step_log_inv)
qed (simp_all add: log_inv_def lines_of_def)

lemma reachable_log_inv:
  assumes "reachable opt s" and "valid_options opt"
  shows "log_inv opt s"
  using assms
proof (induction rule: reachable.induct)
  case init
  then show ?case
    by (simp add: log_inv_def lines_of_def init_sys_def init_worker_def pending_line_def Let_def)
next
  case (step s s')
  then show ?case using sys_step_log_inv reachable_inv by blast
qed

text \<open>C17 (one log line per swap): when the run is finished, every worker has printed
  exactly \<open>iterations\<close> lines (line 45): the loop of line 39 runs its body exactly the
  requested number of times, the back-off and spin retries printing nothing more.\<close>

theorem lines_per_worker:
  assumes "reachable opt s" and "valid_options opt" and "finished s" and "t < length (workers s)"
  shows "lines_of s t = nat (iterations_opt opt)"
proof -
  have inv: "sys_inv s" using assms(1,2) by (rule reachable_inv)
  have li: "log_inv opt s" using assms(1,2) by (rule reachable_log_inv)
  have "\<forall>u < joined s. pc (workers s ! u) = Exit" using inv by (simp add: sys_inv_def Let_def)
  then have ex: "pc (workers s ! t) = Exit" using assms(3,4) by (simp add: finished_def)
  have "iterations (workers s ! t) = -1"
    using sys_inv_worker[OF inv assms(4)] ex by (simp add: worker_ok_def)
  with li ex assms(4) have "int (lines_of s t) = iterations_opt opt"
    by (simp add: log_inv_def pending_line_def)
  then show ?thesis by simp
qed

end
