(* ===== verification/Console.thy ===== *)
theory Console
  imports Coordinator
begin

text \<open>
  What the program prints on standard output. \<open>print_int\<close> is \<open>printf("%d")\<close> and
  \<open>printf("%i")\<close> of a C int (decimal, a minus sign for negatives); \<open>print_buffer\<close> is
  \<open>print_buffer\<close> of lines 83--90; \<open>print_logline\<close> is the log line of lines 45--46;
  \<open>message_text\<close> and \<open>abort_text\<close> are the messages of the set-up, tear-down and
  \<open>exit(1)\<close> paths; \<open>report\<close> is everything a completed run of \<open>start_threads\<close> prints
  (lines 122--186), in the order the code prints it: the per-swap log lines of all workers
  lie between the two snapshots, because the workers are created after the first and joined
  before the second. The elapsed time of line 178 is the text \<open>tm\<close> of the \<open>%f\<close>
  conversion of a \<open>clock()\<close> difference, which the model takes as given. A reader of
  the output is the parser \<open>parse_buffer\<close>, a reference definition (not code of the
  program) that reads back a printed snapshot; the round trip shows that a snapshot
  determines the buffer it prints.
\<close>

subsection \<open>Printing\<close>

fun string_of_nat :: "nat \<Rightarrow> string" where
  "string_of_nat n =
     (if n < 10 then [char_of (48 + n)]
      else string_of_nat (n div 10) @ [char_of (48 + n mod 10)])"

declare string_of_nat.simps [simp del]

definition print_int :: "int \<Rightarrow> string" where
  "print_int x = (if x < 0 then CHR ''-'' # string_of_nat (nat (- x)) else string_of_nat (nat x))"

definition print_buffer :: "buffer \<Rightarrow> string" where
  "print_buffer b =
     concat (map (\<lambda>i. print_int (data b ! i) @ '' '') [0..<nat (bsize b)]) @ ''\<newline>''"

definition print_logline :: "logline \<Rightarrow> string" where
  "print_logline l =
     (case l of (t, i, vi, j, vj) \<Rightarrow>
        ''Thread '' @ print_int (int t) @ '' swapping positions '' @ print_int (int i) @
        '' (== '' @ print_int vi @ '') and '' @ print_int (int j) @ '' (== '' @ print_int vj @
        '')\<newline>'')"

fun message_text :: "message \<Rightarrow> string" where
  "message_text (MutexCreated k) = '' Mutex '' @ print_int (int k) @ '' created\<newline>''"
| "message_text MutexInitFailed = ''\<newline> pthread_mutex_init operation failed\<newline>''"
| "message_text MutexDestroyFailed = ''\<newline> mutex destroy failed\<newline>''"

fun abort_text :: "abort_reason \<Rightarrow> string" where
  "abort_text OutOfMemory = ''Out of memory\<newline>''"
| "abort_text NotEnoughMemory = ''Not enough memory\<newline>''"
| "abort_text (CouldNotCreateThread i) = ''Could not create thread #'' @ print_int (int i)"

definition verdict_text :: "bool \<Rightarrow> string" where
  "verdict_text ok = (if ok then ''Correct buffer\<newline>'' else ''Incorrect buffer\<newline>'')"

definition creating_text :: "options \<Rightarrow> string" where
  "creating_text opt =
     ''\<newline>'' @ '' Creating '' @ print_int (num_threads opt) @ '' threads\<newline>'' @ ''\<newline>''"

definition before_text :: "sys \<Rightarrow> string" where
  "before_text s0 = ''Buffer before: '' @ print_buffer (buf s0) @ ''\<newline>''"

definition report :: "options \<Rightarrow> message list \<Rightarrow> sys \<Rightarrow> sys \<Rightarrow> string \<Rightarrow> string option" where
  "report opt ms s0 s tm =
     (case checkBuffer (buf s) of
        None \<Rightarrow> None
      | Some ok \<Rightarrow> Some (
          concat (map message_text ms) @ creating_text opt @ before_text s0 @
          concat (map print_logline (out s)) @
          ''\<newline>'' @ ''Buffer after:  '' @ print_buffer (buf s) @ ''\<newline>'' @
          verdict_text ok @ ''\<newline>'' @
          ''start_threads() took '' @ tm @ '' seconds to execute \<newline>'' @
          concat (map message_text (destroy_msgs s))))"

subsection \<open>Reading a printed snapshot back\<close>

definition is_digit :: "char \<Rightarrow> bool" where
  "is_digit c \<longleftrightarrow> (48::nat) \<le> of_char c \<and> of_char c \<le> (57::nat)"

definition nat_of_digits :: "string \<Rightarrow> nat" where
  "nat_of_digits ds = foldl (\<lambda>n c. 10 * n + (of_char c - 48)) 0 ds"

definition nat_token :: "string \<Rightarrow> nat option" where
  "nat_token ds = (if ds \<noteq> [] \<and> list_all is_digit ds then Some (nat_of_digits ds) else None)"

definition int_token :: "string \<Rightarrow> int option" where
  "int_token cs =
     (if cs \<noteq> [] \<and> hd cs = CHR ''-'' then map_option (\<lambda>n. - int n) (nat_token (tl cs))
      else map_option int (nat_token cs))"

fun parse_tokens :: "string \<Rightarrow> string \<Rightarrow> int list option" where
  "parse_tokens acc [] = None"
| "parse_tokens acc (c # cs) =
     (if c = CHR ''\<newline>'' then (if acc = [] \<and> cs = [] then Some [] else None)
      else if c = CHR '' '' then
        (case int_token (rev acc) of
           None \<Rightarrow> None
         | Some x \<Rightarrow> map_option (Cons x) (parse_tokens [] cs))
      else parse_tokens (c # acc) cs)"

definition parse_buffer :: "string \<Rightarrow> int list option" where
  "parse_buffer s = parse_tokens [] s"

subsection \<open>Round trip\<close>

lemma string_of_nat_digits: "string_of_nat n \<noteq> [] \<and> list_all is_digit (string_of_nat n)"
proof (induction n rule: string_of_nat.induct)
  case (1 n)
  then show ?case
    by (auto simp: string_of_nat.simps[of n] is_digit_def)
qed

lemma nat_of_digits_snoc: "nat_of_digits (ds @ [c]) = 10 * nat_of_digits ds + (of_char c - 48)"
  by (simp add: nat_of_digits_def)

lemma nat_of_digits_string_of_nat: "nat_of_digits (string_of_nat n) = n"
proof (induction n rule: string_of_nat.induct)
  case (1 n)
  show ?case
  proof (cases "n < 10")
    case True
    then show ?thesis by (subst string_of_nat.simps) (simp add: nat_of_digits_def)
  next
    case False
    then have "nat_of_digits (string_of_nat n) = 10 * (n div 10) + n mod 10"
      using "1.IH" by (subst string_of_nat.simps) (simp add: nat_of_digits_snoc)
    then show ?thesis by simp
  qed
qed

lemma digit_not_sep: "is_digit c \<Longrightarrow> c \<noteq> CHR '' '' \<and> c \<noteq> CHR ''\<newline>'' \<and> c \<noteq> CHR ''-''"
  by (auto simp: is_digit_def)

lemma int_token_print_int: "int_token (print_int x) = Some x"
  using string_of_nat_digits[of "nat (- x)"] string_of_nat_digits[of "nat x"]
    digit_not_sep[of "hd (string_of_nat (nat x))"]
  by (auto simp: int_token_def print_int_def nat_token_def nat_of_digits_string_of_nat
      list_all_iff)

lemma print_int_no_sep: "c \<in> set (print_int x) \<Longrightarrow> c \<noteq> CHR '' '' \<and> c \<noteq> CHR ''\<newline>''"
  using string_of_nat_digits[of "nat (- x)"] string_of_nat_digits[of "nat x"] digit_not_sep
  by (auto simp: print_int_def list_all_iff split: if_splits)

lemma parse_tokens_chunk:
  "\<forall>c \<in> set cs. c \<noteq> CHR '' '' \<and> c \<noteq> CHR ''\<newline>'' \<Longrightarrow>
   parse_tokens acc (cs @ rest) = parse_tokens (rev cs @ acc) rest"
  by (induction cs arbitrary: acc) auto

lemma parse_printed_ints:
  "parse_buffer (concat (map (\<lambda>x. print_int x @ '' '') xs) @ ''\<newline>'') = Some xs"
proof (induction xs)
  case Nil
  then show ?case by (simp add: parse_buffer_def)
next
  case (Cons x xs)
  have "parse_tokens [] (print_int x @ CHR '' '' # concat (map (\<lambda>x. print_int x @ '' '') xs) @ ''\<newline>'')
        = parse_tokens (rev (print_int x)) (CHR '' '' # concat (map (\<lambda>x. print_int x @ '' '') xs) @ ''\<newline>'')"
    using print_int_no_sep[of _ x] by (subst parse_tokens_chunk) auto
  with Cons.IH show ?case by (simp add: parse_buffer_def int_token_print_int)
qed



lemma parse_print_buffer_nth:
  "parse_buffer (print_buffer b) = Some (map (\<lambda>i. data b ! i) [0..<nat (bsize b)])"
  using parse_printed_ints[of "map (\<lambda>i. data b ! i) [0..<nat (bsize b)]"]
  by (simp add: print_buffer_def comp_def)

lemma map_nth_upt_take: "n \<le> length xs \<Longrightarrow> map (\<lambda>i. xs ! i) [0..<n] = take n xs"
  by (simp add: list_eq_iff_nth_eq)

text \<open>C19 (snapshot round trip): the line \<open>print_buffer\<close> prints for a buffer whose size
  does not exceed its allocation reads back as exactly the first \<open>size\<close> values of the
  buffer, negative values included.\<close>

theorem print_buffer_roundtrip:
  assumes "nat (bsize b) \<le> length (data b)"
  shows "parse_buffer (print_buffer b) = Some (take (nat (bsize b)) (data b))"
  using parse_print_buffer_nth[of b] map_nth_upt_take[OF assms] by simp

text \<open>C20 (printed report): a completed run with valid options and \<open>N <= 65536\<close>
  prints its report; in it, the \<open>Buffer after:\<close> snapshot is directly followed by the
  verdict, which reads \<open>Correct buffer\<close> exactly when \<open>N = 10\<close>; the \<open>Buffer before:\<close>
  snapshot reads back as \<open>0 .. N-1\<close> and the \<open>Buffer after:\<close> snapshot as a
  permutation of it.\<close>

theorem completed_report:
  assumes "program opt e (Completed s v ms)" and "valid_options opt"
    and "start_setup opt e = Inr (s0, ms0)" and "nat (buffer_size opt) \<le> 65536"
  shows "(\<exists>pre post. report opt ms0 s0 s tm =
            Some (pre @ ''Buffer after:  '' @ print_buffer (buf s) @ ''\<newline>'' @
                  verdict_text (nat (buffer_size opt) = 10) @ post)) \<and>
         parse_buffer (print_buffer (buf s0)) = Some (map int [0..<nat (buffer_size opt)]) \<and>
         (\<exists>xs. parse_buffer (print_buffer (buf s)) = Some xs \<and>
            mset xs = mset (map int [0..<nat (buffer_size opt)]))"
proof -
  note c = completed_reachable[OF assms(1,2)]
  note f = finished_perm_facts[OF c(1) assms(2) c(2)]
  have v: "checkBuffer (buf s) = Some (nat (buffer_size opt) = 10)"
    using f checkBuffer_perm assms(4) by blast
  have s0: "s0 = init_sys opt" by (rule start_setup_Inr(1)[OF assms(2,3)])
  have b0: "parse_buffer (print_buffer (buf s0)) = Some (map int [0..<nat (buffer_size opt)])"
    using parse_print_buffer_nth[of "buf s0"] map_nth_upt_take[of "nat (buffer_size opt)"]
    by (simp add: s0 init_sys_def Let_def)
  have "length (data (buf s)) = nat (buffer_size opt)" using perm_upto_facts(1) f by blast
  then have lb: "nat (bsize (buf s)) = length (data (buf s))" using f by simp
  have "parse_buffer (print_buffer (buf s)) = Some (data (buf s))"
    using parse_print_buffer_nth[of "buf s"] map_nth_upt_take[of "length (data (buf s))" "data (buf s)"]
    by (simp add: lb)
  moreover have "mset (data (buf s)) = mset (map int [0..<nat (buffer_size opt)])"
    using f by (simp add: is_perm_upto_def)
  moreover have "\<exists>pre post. report opt ms0 s0 s tm =
            Some (pre @ ''Buffer after:  '' @ print_buffer (buf s) @ ''\<newline>'' @
                  verdict_text (nat (buffer_size opt) = 10) @ post)"
  proof -
    have "report opt ms0 s0 s tm =
      Some ((concat (map message_text ms0) @ creating_text opt @ before_text s0 @
             concat (map print_logline (out s)) @ ''\<newline>'') @
            ''Buffer after:  '' @ print_buffer (buf s) @ ''\<newline>'' @
            verdict_text (nat (buffer_size opt) = 10) @
            (''\<newline>'' @ ''start_threads() took '' @ tm @ '' seconds to execute \<newline>'' @
             concat (map message_text (destroy_msgs s))))"
      by (simp add: report_def v)
    then show ?thesis by blast
  qed
  ultimately show ?thesis using b0 by blast
qed

text \<open>The format of a snapshot, evaluated.\<close>

lemma print_buffer_example:
  "print_buffer \<lparr>data = [3, -12, 0], bsize = 3\<rparr> = ''3 -12 0 \<newline>''"
  by code_simp

end
