(* ===== verification/SoloRun.thy ===== *)
theory SoloRun
  imports Progress
begin

text \<open>
  The thread body \<open>swap\<close> of \<^verbatim>\<open>src/swape2.c\<close> read as a sequential loop: worker \<open>t\<close> runs
  its steps one after another with no other thread moving, until it returns (\<open>pc = Exit\<close>).
  \<open>rng\<close> gives the pair of \<open>rand()\<close> results of the iteration with a given remaining count;
  since the count strictly decreases from one index choice to the next, every sequence of
  \<open>rand()\<close> results of a run is one such function. The loop has no termination argument
  of its own (the spin and back-off loops wait for other threads, and the count of a
  misconfigured run is negative), so it is a \<^theory_text>\<open>partial_function (option)\<close>: \<open>None\<close>
  when the worker blocks, when a step is undefined, or when it never returns. The two
  theorems say when it returns and when it does not.
\<close>

partial_function (option) solo_run :: "(int \<Rightarrow> int \<times> int) \<Rightarrow> tid \<Rightarrow> sys \<Rightarrow> sys option" where
  "solo_run rng t s =
     (if pc (workers s ! t) = Exit then Some s
      else case worker_step (rng (iterations (workers s ! t))) t s of
             None \<Rightarrow> None
           | Some s' \<Rightarrow> solo_run rng t s')"

lemma solo_run_step:
  "pc (workers s ! t) \<noteq> Exit \<Longrightarrow> worker_step (rng (iterations (workers s ! t))) t s = Some s1 \<Longrightarrow>
   solo_run rng t s = solo_run rng t s1"
  by (subst solo_run.simps) simp

lemma worker_step_negative:
  assumes "worker_step r t s = Some s'" and "t < length (workers s)"
    and "iterations (workers s ! t) < 0" and "pc (workers s ! t) \<noteq> Exit"
  shows "iterations (workers s' ! t) < 0 \<and> pc (workers s' ! t) \<noteq> Exit"
  using assms
  by (cases "pc (workers s ! t)")
     (auto simp: worker_step_def Let_def set_worker_def set_data_def
        split: option.splits sum.splits prod.splits if_splits)

text \<open>C21 (termination of a solo run): a created worker that is the only thread holding
  mutexes, run alone from any state of a valid run, returns: whatever \<open>rand()\<close> yields,
  its loop ends with the worker at \<open>return NULL\<close>, in a state the concurrent system reaches
  from the start state by steps of this worker only.\<close>

theorem solo_run_terminates:
  assumes "sys_inv s" and "t < created s" and "only_holder s t" and "\<forall>k. rand_ok (rng k)"
  shows "\<exists>s'. solo_run rng t s = Some s' \<and> pc (workers s' ! t) = Exit \<and> sys_step\<^sup>*\<^sup>* s s'"
  using assms(1-3)
proof (induction "solo_rank (workers s ! t)" arbitrary: s rule: less_induct)
  case less
  have tW: "t < length (workers s)" using less.prems(2) sys_inv_len(4)[OF less.prems(1)] by simp
  show ?case
  proof (cases "pc (workers s ! t) = Exit")
    case True
    then show ?thesis by (subst solo_run.simps) simp
  next
    case False
    let ?r = "rng (iterations (workers s ! t))"
    obtain s1 where st: "worker_step ?r t s = Some s1"
      using solo_enabled[OF less.prems(1) tW less.prems(3) False] by blast
    have inv1: "sys_inv s1" using worker_step_inv[OF less.prems(1,2) st] .
    have c1: "t < created s1" using worker_step_shared[OF st] less.prems(2) by simp
    have oh1: "only_holder s1 t" using worker_step_only_holder[OF st less.prems(3)] .
    have lt: "solo_rank (workers s1 ! t) < solo_rank (workers s ! t)"
      using solo_step_rank[OF less.prems(1) tW less.prems(3) st False] .
    obtain s' where s': "solo_run rng t s1 = Some s'" "pc (workers s' ! t) = Exit"
      "sys_step\<^sup>*\<^sup>* s1 s'"
      using less.hyps[OF lt inv1 c1 oh1] by blast
    have "sys_step s s1" using sys_step.work[OF less.prems(2) _ st] assms(4) by blast
    then have "sys_step\<^sup>*\<^sup>* s s'" using s'(3) by (meson converse_rtranclp_into_rtranclp)
    then show ?thesis using s'(1,2) solo_run_step[of s t rng s1] False st by simp
  qed
qed

text \<open>C22 (no return with a negative count): a worker whose remaining count is negative
  never returns from \<open>swap\<close>, even alone: \<open>while (args->iterations--)\<close> only stops at 0,
  which the decrementing count never reaches, until its decrement at \<open>INT_MIN\<close> is
  undefined.\<close>

theorem solo_run_negative:
  assumes "t < length (workers s)" and "iterations (workers s ! t) < 0"
    and "pc (workers s ! t) \<noteq> Exit"
  shows "solo_run rng t s = None"
proof -
  have "t < length (workers s) \<longrightarrow> iterations (workers s ! t) < 0 \<longrightarrow>
          pc (workers s ! t) \<noteq> Exit \<longrightarrow> False" if ret: "solo_run rng t s = Some y" for y
  proof (rule solo_run.raw_induct[where P = "\<lambda>rng t s y. t < length (workers s) \<longrightarrow>
            iterations (workers s ! t) < 0 \<longrightarrow> pc (workers s ! t) \<noteq> Exit \<longrightarrow> False", OF _ ret])
    fix f rng t s y
    assume IH: "\<And>rng t s y. f rng t s = Some y \<Longrightarrow> t < length (workers s) \<longrightarrow>
            iterations (workers s ! t) < 0 \<longrightarrow> pc (workers s ! t) \<noteq> Exit \<longrightarrow> False"
      and eq: "(if pc (workers s ! t) = Exit then Some s
                else case worker_step (rng (iterations (workers s ! t))) t s of
                       None \<Rightarrow> None | Some s' \<Rightarrow> f rng t s') = Some y"
    show "t < length (workers s) \<longrightarrow> iterations (workers s ! t) < 0 \<longrightarrow>
          pc (workers s ! t) \<noteq> Exit \<longrightarrow> False"
    proof (intro impI)
      assume tW: "t < length (workers s)" and neg: "iterations (workers s ! t) < 0"
        and np: "pc (workers s ! t) \<noteq> Exit"
      obtain s1 where st: "worker_step (rng (iterations (workers s ! t))) t s = Some s1"
        and f1: "f rng t s1 = Some y"
        using eq np by (auto split: option.splits)
      have "t < length (workers s1)"
        using worker_step_workers[OF st tW] tW by (metis length_list_update)
      then show False using IH[OF f1] worker_step_negative[OF st tW neg np] by blast
    qed
  qed
  then show ?thesis using assms by (cases "solo_run rng t s") auto
qed

end
