(* ===== verification/Ranges.thy ===== *)
theory Ranges
  imports Log
begin

text \<open>
  The values the program stores and prints stay C ints of a known range. In every state of
  a valid run, each slot of the buffer, the \<open>tmp\<close> of each worker between its read and
  its second write (before, the local is uninitialised in C), and each value a log line
  prints lies in \<open>[0, N)\<close>, and each printed index is below \<open>N\<close>: the two writes of a swap
  copy values that are already in the buffer, \<open>tmp\<close> is a copy of a slot, and a log line
  reads two slots at indices \<open>rand() % N\<close>.
\<close>

definition in_slots :: "int \<Rightarrow> int \<Rightarrow> bool" where
  "in_slots n x \<longleftrightarrow> 0 \<le> x \<and> x < n"

definition values_ok :: "int \<Rightarrow> sys \<Rightarrow> bool" where
  "values_ok n s \<longleftrightarrow>
     list_all (in_slots n) (data (buf s)) \<and>
     list_all (\<lambda>w. pc w \<in> {WriteI, WriteJ} \<longrightarrow> in_slots n (tmp w)) (workers s) \<and>
     list_all (\<lambda>(t, i, vi, j, vj). int i < n \<and> int j < n \<and> in_slots n vi \<and> in_slots n vj) (out s)"

lemma worker_step_tmp:
  "worker_step r t s = Some s' \<Longrightarrow> t < length (workers s) \<Longrightarrow>
   tmp (workers s' ! t) = (if pc (workers s ! t) = ReadI then data (buf s) ! wi (workers s ! t)
                           else tmp (workers s ! t))"
  by (cases "pc (workers s ! t)")
     (auto simp: step_unfold split: option.splits if_splits prod.splits sum.splits)

lemma worker_step_write:
  "worker_step r t s = Some s' \<Longrightarrow>
   data (buf s') = (if pc (workers s ! t) = WriteI
                    then (data (buf s))[wi (workers s ! t) := data (buf s) ! wj (workers s ! t)]
                    else if pc (workers s ! t) = WriteJ
                    then (data (buf s))[wj (workers s ! t) := tmp (workers s ! t)]
                    else data (buf s))"
  by (cases "pc (workers s ! t)")
     (auto simp: step_unfold split: option.splits if_splits prod.splits sum.splits)

lemma worker_step_pc_write:
  "worker_step r t s = Some s' \<Longrightarrow> t < length (workers s) \<Longrightarrow>
   pc (workers s' ! t) \<in> {WriteI, WriteJ} \<Longrightarrow> pc (workers s ! t) \<in> {ReadI, WriteI}"
  by (cases "pc (workers s ! t)")
     (auto simp: step_unfold split: option.splits if_splits prod.splits sum.splits)

lemma list_all_nth: "list_all P xs \<Longrightarrow> i < length xs \<Longrightarrow> P (xs ! i)"
  by (simp add: list_all_length)

lemma worker_step_values:
  assumes inv: "sys_inv s" and tW: "t < length (workers s)" and step: "worker_step r t s = Some s'"
    and v: "values_ok n s" and n: "n = int (length (data (buf s)))"
  shows "values_ok n s'"
proof -
  let ?w = "workers s ! t" and ?d = "data (buf s)"
  have ok: "worker_ok (length ?d) ?d ?w" using sys_inv_worker[OF inv tW] .
  have ij: "picked (pc ?w) \<Longrightarrow> wi ?w < length ?d \<and> wj ?w < length ?d"
    using ok by (simp add: worker_ok_def)
  have vd: "list_all (in_slots n) ?d"
    and vw: "list_all (\<lambda>w. pc w \<in> {WriteI, WriteJ} \<longrightarrow> in_slots n (tmp w)) (workers s)"
    and vo: "list_all (\<lambda>(t, i, vi, j, vj). int i < n \<and> int j < n \<and> in_slots n vi \<and> in_slots n vj) (out s)"
    using v by (simp_all add: values_ok_def)
  have tw: "pc ?w \<in> {WriteI, WriteJ} \<Longrightarrow> in_slots n (tmp ?w)" using list_all_nth[OF vw tW] by simp
  have slot: "k < length ?d \<Longrightarrow> in_slots n (?d ! k)" for k using list_all_nth[OF vd] .
  have "list_all (in_slots n) (data (buf s'))"
    using worker_step_write[OF step] vd tw slot ij by (simp add: picked_def)
  moreover have "list_all (\<lambda>w. pc w \<in> {WriteI, WriteJ} \<longrightarrow> in_slots n (tmp w)) (workers s')"
  proof -
    have "pc (workers s' ! t) \<in> {WriteI, WriteJ} \<longrightarrow> in_slots n (tmp (workers s' ! t))"
    proof
      assume "pc (workers s' ! t) \<in> {WriteI, WriteJ}"
      then have p: "pc ?w \<in> {ReadI, WriteI}" by (rule worker_step_pc_write[OF step tW])
      show "in_slots n (tmp (workers s' ! t))"
      proof (cases "pc ?w = ReadI")
        case True
        then show ?thesis using worker_step_tmp[OF step tW] slot ij by (simp add: picked_def)
      next
        case False
        then show ?thesis using worker_step_tmp[OF step tW] tw p by simp
      qed
    qed
    then have "list_all (\<lambda>w. pc w \<in> {WriteI, WriteJ} \<longrightarrow> in_slots n (tmp w))
                 ((workers s)[t := workers s' ! t])"
      by (rule list_all_update[OF vw])
    then show ?thesis using worker_step_workers[OF step tW] by simp
  qed
  moreover have "list_all (\<lambda>(t, i, vi, j, vj). int i < n \<and> int j < n \<and> in_slots n vi \<and> in_slots n vj)
                   (out s')"
    using worker_step_out[OF step] vo slot ij n by (simp add: picked_def)
  ultimately show ?thesis by (simp add: values_ok_def)
qed

lemma sys_step_values:
  assumes "sys_inv s" and "sys_step s s'" and "values_ok n s" and "n = int (length (data (buf s)))"
  shows "values_ok n s' \<and> n = int (length (data (buf s')))"
  using assms(2)
proof (cases rule: sys_step.cases)
  case (work t r)
  have tW: "t < length (workers s)" using work(1) sys_inv_len(4)[OF assms(1)] by simp
  show ?thesis using worker_step_values[OF assms(1) tW work(3) assms(3,4)]
    worker_step_shared[OF work(3)] assms(4) by simp
qed (use assms(3,4) in \<open>simp_all add: values_ok_def\<close>)

lemma reachable_values:
  assumes "reachable opt s" and "valid_options opt"
  shows "values_ok (buffer_size opt) s \<and> buffer_size opt = int (length (data (buf s)))"
  using assms(1)
proof (induction rule: reachable.induct)
  case init
  have "list_all (in_slots (buffer_size opt)) (map int [0..<nat (buffer_size opt)])"
    by (auto simp: list_all_iff in_slots_def)
  then show ?case using assms(2)
    by (simp add: values_ok_def init_sys_def init_worker_def list_all_iff valid_options_def Let_def)
next
  case (step s s')
  then show ?case using sys_step_values[OF reachable_inv[OF step.hyps(1) assms(2)]] by blast
qed

text \<open>C23 (typed values): in every state of a valid run, every buffer slot, every worker's
  \<open>tmp\<close> once read and every value printed by a log line is an int in \<open>[0, N)\<close>, and every printed
  index is below \<open>N\<close>; in particular no store or print ever handles a value outside the
  C int range.\<close>

theorem values_in_range:
  assumes "reachable opt s" and "valid_options opt"
  shows "values_ok (buffer_size opt) s"
  using reachable_values[OF assms] by (rule conjunct1)

text \<open>C25 (one-slot buffer): with \<open>N = 1\<close> every swap is \<open>i = j = 0\<close> and the buffer is
  \<open>[0]\<close> in every state of the run, committed view included.\<close>

theorem single_slot_buffer:
  assumes "reachable opt s" and "valid_options opt" and "buffer_size opt = 1"
  shows "data (buf s) = [0] \<and> committed s = [0]"
proof -
  have v: "values_ok 1 s" and l: "length (data (buf s)) = 1"
    using reachable_values[OF assms(1,2)] assms(3) by auto
  then obtain x where d: "data (buf s) = [x]" by (auto simp: length_Suc_conv)
  with v have "x = 0" by (simp add: values_ok_def in_slots_def)
  moreover have "mset (committed s) = {#0#}"
    using reachable_committed_perm[OF assms(1,2)] assms(3) by simp
  ultimately show ?thesis using d by simp
qed

text \<open>C26 (sum invariant): in every state of a valid run, the committed view of the buffer
  sums to \<open>N (N - 1) / 2\<close>, the spec's invariant of the sum.\<close>

theorem committed_sum_invariant:
  assumes "reachable opt s" and "valid_options opt"
  shows "2 * sum_list (committed s) = buffer_size opt * (buffer_size opt - 1)"
proof -
  have "sum_list (committed s) = sum_list (map int [0..<nat (buffer_size opt)])"
    using sum_list_mset_eq[OF reachable_committed_perm[OF assms]] .
  then show ?thesis
    using sum_list_upt_int[of "nat (buffer_size opt)"] assms(2) by (simp add: valid_options_def)
qed

end
