(* ===== verification/Output.thy ===== *)
theory Output
  imports Console Log
begin

text \<open>
  The whole standard output of a run of \<^verbatim>\<open>src/swape2.c\<close> and the status it exits with,
  on every path of \<open>start_threads\<close>: \<open>stdout opt e tm txt c\<close> says that with options
  \<open>opt\<close>, environment \<open>e\<close> and timing text \<open>tm\<close> the program can print \<open>txt\<close> and exit
  with status \<open>c\<close>. It has one rule per way the run ends: the \<open>exit(1)\<close> after a failed
  buffer allocation (lines 112--115), after a failed allocation of the thread or argument
  arrays (lines 130--136, once the mutex messages and the banner are printed), after a
  failed \<open>pthread_create\<close> (lines 153--156: the workers created so far have been printing
  meanwhile, and may still print between the message and the exit), and the end of a
  completed run, whose output is \<open>Console.report\<close>. The outputs are composed from the
  same set-up (\<open>start_setup\<close>), the same concurrent steps (\<open>sys_step\<close>) and the same
  printing functions as the rest of the development.
\<close>

inductive stdout :: "options \<Rightarrow> env \<Rightarrow> string \<Rightarrow> string \<Rightarrow> int \<Rightarrow> bool" where
  out_of_memory: "start_setup opt e = Inl OutOfMemory \<Longrightarrow>
    stdout opt e tm (abort_text OutOfMemory) 1"
| not_enough_memory: "start_setup opt e = Inl NotEnoughMemory \<Longrightarrow>
    stdout opt e tm (concat (map message_text (mutex_msgs opt e)) @ creating_text opt @
                     abort_text NotEnoughMemory) 1"
| create_fails: "start_setup opt e = Inr (s0, ms) \<Longrightarrow> sys_step\<^sup>*\<^sup>* s0 s \<Longrightarrow>
    created s < length (workers s) \<Longrightarrow> (\<forall>j < created s. create_ok e j) \<Longrightarrow>
    \<not> create_ok e (created s) \<Longrightarrow> sys_step\<^sup>*\<^sup>* s s' \<Longrightarrow> created s' = created s \<Longrightarrow>
    stdout opt e tm (concat (map message_text ms) @ creating_text opt @ before_text s0 @
                     concat (map print_logline (out s)) @ abort_text (CouldNotCreateThread (created s)) @
                     concat (map print_logline (drop (length (out s)) (out s')))) 1"
| completes: "start_setup opt e = Inr (s0, ms) \<Longrightarrow> sys_step\<^sup>*\<^sup>* s0 s \<Longrightarrow> finished s \<Longrightarrow>
    (\<forall>i < nat (num_threads opt). create_ok e i) \<Longrightarrow> report opt ms s0 s tm = Some txt \<Longrightarrow>
    stdout opt e tm txt 0"

subsection \<open>Counting the log lines\<close>

lemma length_by_thread:
  "list_all (\<lambda>l. fst l < n) xs \<Longrightarrow>
   sum_list (map (\<lambda>t. length (filter (\<lambda>l. fst l = t) xs)) [0..<n]) = length xs"
proof (induction xs)
  case Nil
  then show ?case by (induction n) simp_all
next
  case (Cons x xs)
  have "sum_list (map (\<lambda>t. length (filter (\<lambda>l. fst l = t) (x # xs))) [0..<n]) =
        sum_list (map (\<lambda>t. if fst x = t then 1 else 0) [0..<n]) +
        sum_list (map (\<lambda>t. length (filter (\<lambda>l. fst l = t) xs)) [0..<n])"
    unfolding sum_list_addf[symmetric] by (intro arg_cong[where f = sum_list] map_cong) auto
  moreover have "sum_list (map (\<lambda>t. if fst x = t then 1 else 0) [0..<n]) = (1::nat)"
    using Cons.prems by (simp add: sum_list_map_eq_sum_count[symmetric] sum.If_cases
      interv_sum_list_conv_sum_set_nat)
  ultimately show ?case using Cons by simp
qed

lemma map_const_upt: "(\<And>t. t < n \<Longrightarrow> f t = c) \<Longrightarrow> map f [0..<n] = replicate n c"
  by (rule nth_equalityI) simp_all

lemma reachable_star: "reachable opt s \<Longrightarrow> sys_step\<^sup>*\<^sup>* (init_sys opt) s"
  by (induction rule: reachable.induct) (auto intro: rtranclp.rtrancl_into_rtrancl)

lemma out_threads:
  assumes "reachable opt s" and "valid_options opt"
  shows "list_all (\<lambda>l. fst l < length (workers s)) (out s)"
  using assms(1)
proof (induction rule: reachable.induct)
  case init
  then show ?case by (simp add: init_sys_def Let_def)
next
  case (step s s')
  have inv: "sys_inv s" using step.hyps(1) assms(2) by (rule reachable_inv)
  from step.hyps(2) show ?case
  proof (cases rule: sys_step.cases)
    case (work t r)
    have tW: "t < length (workers s)" using work(1) sys_inv_len(4)[OF inv] by simp
    have num: "thread_num (workers s ! t) = t" using inv tW by (simp add: sys_inv_def Let_def)
    have len: "length (workers s') = length (workers s)"
      using worker_step_workers[OF work(3) tW] by (metis length_list_update)
    show ?thesis using worker_step_out[OF work(3)] step.IH num tW len by simp
  qed (use step.IH in simp_all)
qed

lemma out_length_lines:
  assumes "reachable opt s" and "valid_options opt"
  shows "length (out s) = sum_list (map (lines_of s) [0..<nat (num_threads opt)])"
proof -
  have W: "length (workers s) = nat (num_threads opt)"
    using star_workers_length[OF reachable_star[OF assms(1)]] by (simp add: init_sys_def Let_def)
  show ?thesis
    using length_by_thread[OF out_threads[OF assms]] W by (simp add: lines_of_def[abs_def])
qed

lemma lines_of_bound:
  assumes "reachable opt s" and "valid_options opt" and "t < length (workers s)"
  shows "lines_of s t \<le> nat (iterations_opt opt) \<and> (pc (workers s ! t) = Exit \<longrightarrow> lines_of s t = nat (iterations_opt opt))"
proof -
  have inv: "sys_inv s" using assms(1,2) by (rule reachable_inv)
  have li: "int (lines_of s t) = iterations_opt opt - iterations (workers s ! t) - pending_line (pc (workers s ! t))"
    using reachable_log_inv[OF assms(1,2)] assms(3) by (simp add: log_inv_def)
  have ok: "worker_ok (length (data (buf s))) (data (buf s)) (workers s ! t)"
    using sys_inv_worker[OF inv assms(3)] .
  then have "0 \<le> iterations (workers s ! t) + pending_line (pc (workers s ! t))"
    by (cases "pc (workers s ! t) = Exit") (auto simp: worker_ok_def pending_line_def)
  moreover have "pc (workers s ! t) = Exit \<Longrightarrow> iterations (workers s ! t) + pending_line (pc (workers s ! t)) = 0"
    using ok by (simp add: worker_ok_def pending_line_def)
  ultimately show ?thesis using li by auto
qed

lemma finished_out_length:
  assumes "reachable opt s" and "valid_options opt" and "finished s"
  shows "length (out s) = nat (num_threads opt) * nat (iterations_opt opt)"
proof -
  have inv: "sys_inv s" using assms(1,2) by (rule reachable_inv)
  have W: "length (workers s) = nat (num_threads opt)"
    using star_workers_length[OF reachable_star[OF assms(1)]] by (simp add: init_sys_def Let_def)
  have "\<forall>u < joined s. pc (workers s ! u) = Exit" using inv by (simp add: sys_inv_def Let_def)
  then have "lines_of s t = nat (iterations_opt opt)" if "t < nat (num_threads opt)" for t
    using lines_of_bound[OF assms(1,2), of t] assms(3) that W by (simp add: finished_def)
  then have "map (lines_of s) [0..<nat (num_threads opt)] =
             replicate (nat (num_threads opt)) (nat (iterations_opt opt))"
    by (rule map_const_upt)
  then show ?thesis using out_length_lines[OF assms(1,2)] by (simp add: sum_list_replicate)
qed

subsection \<open>Set-up results\<close>

lemma start_setup_Inl:
  assumes "start_setup opt e = Inl r"
  shows "(r = OutOfMemory \<longleftrightarrow> \<not> buffer_alloc_ok e) \<and> (r = OutOfMemory \<or> r = NotEnoughMemory) \<and>
         \<not> (buffer_alloc_ok e \<and> threads_alloc_ok e \<and> args_alloc_ok e)"
  using assms by (auto simp: start_setup_def Let_def split: if_splits)

lemma start_setup_msgs: "start_setup opt e = Inr (s0, ms) \<Longrightarrow> ms = mutex_msgs opt e"
  by (auto simp: start_setup_def Let_def split: if_splits)

lemma report_Some: "report opt ms s0 s tm \<noteq> None \<longleftrightarrow> checkBuffer (buf s) \<noteq> None"
  by (simp add: report_def split: option.splits)

subsection \<open>Properties of the output\<close>

text \<open>C29 (what a failing run prints): a run exits with status 0 or 1, with 1 exactly when
  some allocation or thread creation fails; a run with status 1 prints one of the three
  \<open>exit(1)\<close> messages, after which only log lines of already running workers can appear,
  and the message is "Out of memory" exactly when the buffer allocation failed.\<close>

theorem stdout_status:
  assumes "stdout opt e tm txt c" and "valid_options opt"
  shows "(c = 1 \<longleftrightarrow> \<not> env_ok opt e) \<and> (c = 0 \<or> c = 1) \<and>
         (c = 1 \<longrightarrow> (\<exists>pre r ls. txt = pre @ abort_text r @ concat (map print_logline ls) \<and>
                     (r = OutOfMemory \<longleftrightarrow> \<not> buffer_alloc_ok e)))"
  using assms(1)
proof (cases rule: stdout.cases)
  case out_of_memory
  have w: "txt = [] @ abort_text OutOfMemory @ concat (map print_logline [])" using out_of_memory by simp
  have f: "\<not> buffer_alloc_ok e" using out_of_memory start_setup_Inl[of opt e OutOfMemory] by simp
  then have "\<not> env_ok opt e" by (simp add: env_ok_def)
  then show ?thesis using out_of_memory w f by blast
next
  case not_enough_memory
  have w: "txt = (concat (map message_text (mutex_msgs opt e)) @ creating_text opt) @
             abort_text NotEnoughMemory @ concat (map print_logline [])"
    using not_enough_memory by simp
  have f: "buffer_alloc_ok e" "\<not> env_ok opt e"
    using not_enough_memory start_setup_Inl[of opt e NotEnoughMemory] by (auto simp: env_ok_def)
  moreover have "NotEnoughMemory \<noteq> OutOfMemory" by simp
  ultimately show ?thesis using not_enough_memory w by blast
next
  case (create_fails s0 ms s s')
  have s0: "s0 = init_sys opt" and ok: "buffer_alloc_ok e \<and> threads_alloc_ok e \<and> args_alloc_ok e"
    using start_setup_Inr[of opt e s0 ms] assms(2) create_fails by simp_all
  have "created s < nat (num_threads opt)"
    using create_fails star_workers_length[of s0 s] s0 by (simp add: init_sys_def Let_def)
  then have "\<not> env_ok opt e" using create_fails by (auto simp: env_ok_def)
  moreover have "txt = (concat (map message_text ms) @ creating_text opt @ before_text s0 @
      concat (map print_logline (out s))) @ abort_text (CouldNotCreateThread (created s)) @
      concat (map print_logline (drop (length (out s)) (out s')))"
    using create_fails by simp
  moreover have "CouldNotCreateThread (created s) \<noteq> OutOfMemory" by simp
  ultimately show ?thesis using create_fails ok by blast
next
  case (completes s0 ms s)
  have "buffer_alloc_ok e \<and> threads_alloc_ok e \<and> args_alloc_ok e"
    using start_setup_Inr(2)[OF assms(2) completes(2)] .
  then show ?thesis using completes by (simp add: env_ok_def)
qed

text \<open>C30 (order of a completed run's output): a run that exits with status 0 prints, in
  this order, one message per mutex, the banner, the snapshot of the initial buffer,
  exactly \<open>num_threads * iterations\<close> log lines, and then the \<open>Buffer after:\<close> snapshot.\<close>

theorem stdout_completed_order:
  assumes "stdout opt e tm txt 0" and "valid_options opt"
  shows "\<exists>ls post. txt = concat (map message_text (mutex_msgs opt e)) @ creating_text opt @
            before_text (init_sys opt) @ concat (map print_logline ls) @
            ''\<newline>'' @ ''Buffer after:  '' @ post \<and>
          length ls = nat (num_threads opt) * nat (iterations_opt opt)"
  using assms(1)
proof (cases rule: stdout.cases)
  case (completes s0 ms s)
  have s0: "s0 = init_sys opt" using start_setup_Inr(1)[OF assms(2) completes(1)] .
  have ms: "ms = mutex_msgs opt e" using start_setup_msgs[OF completes(1)] .
  have r: "reachable opt s" using star_reachable[OF completes(2)[unfolded s0] reachable.init] .
  have l: "length (out s) = nat (num_threads opt) * nat (iterations_opt opt)"
    using finished_out_length[OF r assms(2) completes(3)] .
  obtain ok where "checkBuffer (buf s) = Some ok"
    using completes(5) report_Some[of opt ms s0 s tm] by auto
  then have "txt = concat (map message_text (mutex_msgs opt e)) @ creating_text opt @
            before_text (init_sys opt) @ concat (map print_logline (out s)) @
            ''\<newline>'' @ ''Buffer after:  '' @ (print_buffer (buf s) @ ''\<newline>'' @ verdict_text ok @
            ''\<newline>'' @ ''start_threads() took '' @ tm @ '' seconds to execute \<newline>'' @
            concat (map message_text (destroy_msgs s)))"
    using completes(5) by (simp add: report_def s0 ms)
  then show ?thesis using l by blast
qed simp_all

text \<open>C31 (bound on the log): in every state of a valid run the workers have printed at
  most \<open>num_threads * iterations\<close> log lines, each worker at most \<open>iterations\<close>.\<close>

theorem log_length_bound:
  assumes "reachable opt s" and "valid_options opt"
  shows "length (out s) \<le> nat (num_threads opt) * nat (iterations_opt opt)"
proof -
  have W: "length (workers s) = nat (num_threads opt)"
    using star_workers_length[OF reachable_star[OF assms(1)]] by (simp add: init_sys_def Let_def)
  have "sum_list (map (lines_of s) [0..<nat (num_threads opt)]) \<le>
        sum_list (map (\<lambda>_. nat (iterations_opt opt)) [0..<nat (num_threads opt)])"
    using lines_of_bound[OF assms] W by (intro sum_list_mono) simp
  then show ?thesis using out_length_lines[OF assms] by (simp add: sum_list_triv)
qed

end
