(* ===== verification/Spec2Isabelle.thy ===== *)
theory Spec2Isabelle
  imports Schedule Coordinator Log Console SoloRun Ranges Output
begin

text \<open>
  \<^bold>\<open>A verification development of \<^verbatim>\<open>src/swape2.c\<close> (anxods/cp-p1, exercise 2).\<close>

  The program fills a buffer of \<open>N\<close> C ints with \<open>0 .. N-1\<close>, protects each position with
  its own POSIX mutex, and lets \<open>num_threads\<close> threads each perform \<open>iterations\<close> swaps
  of two randomly chosen positions. A swap of two different positions takes mutex \<open>j\<close>
  with a blocking lock, then tries mutex \<open>i\<close> without blocking and, on failure, releases
  \<open>j\<close> and starts over (back-off); a swap of a position with itself spins on a
  non-blocking try of mutex \<open>i\<close>. After joining all threads the coordinator sums the
  buffer and compares the sum with 45.

  \<^bold>\<open>Theories and what they model.\<close>
  \<^item> \<open>Prelude\<close>: thread and index types, the C \<open>int\<close> range, the abstract swap
    \<open>list_swap\<close>, shared list and multiset lemmas.
  \<^item> \<open>Buffer\<close>: \<open>struct buffer\<close> (lines 16--19) as the record \<open>buffer\<close>; the
    initialisation loop (lines 119--120) as \<open>init_loop\<close>; \<open>checkBuffer\<close> (lines
    92--99) as \<open>checkBuffer\<close>, whose summation \<open>check_sum\<close> returns \<open>None\<close> on signed
    overflow (undefined behaviour in C).
  \<^item> \<open>LockTable\<close>: the mutex array (line 107) as a list of holders, with
    \<open>mutex_lock\<close> (blocking: \<open>None\<close> means the caller waits), \<open>mutex_trylock\<close> (0 or
    \<open>EBUSY\<close>), \<open>mutex_unlock\<close> (an error value when the caller is not the holder),
    \<open>mutex_destroy\<close>.
  \<^item> \<open>Worker\<close>: the thread body \<open>swap\<close> (lines 35--81) as a program-counter machine
    \<open>worker_step\<close>, one atomic step per statement that touches shared state; the worker
    record is \<open>struct args\<close> (lines 26--32) with the locals \<open>i\<close>, \<open>j\<close>, \<open>tmp\<close>; the
    shared state \<open>sys\<close> holds the buffer, the mutexes, the \<open>args\<close> array, the
    coordinator's creation and join counters and the printed log lines. The \<open>usleep\<close>
    calls change no state; the interleaving semantics already lets any thread run at
    any point, which is all a delay does.
  \<^item> \<open>System\<close>: the concurrent phase of \<open>start_threads\<close> (lines 143--161) as the
    inductive relation \<open>sys_step\<close> (a step of a created worker, the creation of the next
    thread, or the join of the next finished one) and its reachable states from
    \<open>init_sys\<close>, the state built by line 141 with options \<open>options\<close> (the structure of
    \<^verbatim>\<open>options.h\<close>, which is not in the repository). \<open>rand()\<close> is a scheduler input in
    \<open>[0, RAND_MAX]\<close>.
  \<^item> \<open>Progress\<close>: from every reachable state a schedule completes the run (C13),
    built from create, drain, solo and join phases.
  \<^item> \<open>Coordinator\<close>: the sequential parts of \<open>start_threads\<close> and \<open>main\<close>: the
    environment \<open>env\<close> decides every \<open>malloc\<close>, \<open>pthread_mutex_init\<close> and
    \<open>pthread_create\<close>; \<open>start_setup\<close> is lines 110--141, \<open>destroy_msgs\<close> lines
    183--187, and \<open>program\<close> relates options and environment to the outcomes of whole
    runs (an \<open>exit(1)\<close>, or a completed run with its verdict and messages).
  \<^item> \<open>Log\<close>: the printed lines of line 45, one per iteration (C17).
  \<^item> \<open>Console\<close>: what the program prints: \<open>print_int\<close> (\<open>printf %d/%i\<close>),
    \<open>print_buffer\<close> (lines 83--90), the log line (lines 45--46), the set-up, tear-down and
    exit messages, and \<open>report\<close>, the whole output of a completed run of
    \<open>start_threads\<close> in the order the code prints it; \<open>parse_buffer\<close> is a reference
    reader of a printed snapshot.
  \<^item> \<open>Output\<close>: the inductive relation \<open>stdout\<close>, the whole standard output and exit
    status of a run on each of its four ending paths (two failed allocations, a failed
    \<open>pthread_create\<close> with the workers still printing around the message, a completed
    run), composed from \<open>start_setup\<close>, \<open>sys_step\<close> and the printing functions.
  \<^item> \<open>SoloRun\<close>: the thread body read as a sequential loop, \<open>solo_run\<close>, a
    \<^theory_text>\<open>partial_function (option)\<close>: one worker running alone to its return.
  \<^item> \<open>Ranges\<close>: the range invariant \<open>values_ok\<close> of stored and printed values.
  \<^item> \<open>Schedule\<close>: an executable reading of the steps (\<open>exec_action\<close>, \<open>run\<close>); a
    state a schedule reaches is reachable, so concrete runs are evaluated by \<open>simp\<close>.
  \<^item> this theory: end-to-end results and the witnesses of every claim.

  \<^bold>\<open>What is proved.\<close>
  The invariant \<open>sys_inv\<close> (every reachable state satisfies it) says that a mutex is
  held exactly by the worker whose program counter lies between its acquisition and its
  release, that indices are in range, and that a worker between its read and its first
  write still sees its value. From it: mutual exclusion on buffer positions (C3); every
  read and write of the swap happens in range and under both mutexes (C4); each unlock
  step of \<open>swap\<close> is always possible and frees exactly the mutex the code names (C7); no
  deadlock (C5); and a refinement: each step, seen through the committed
  view (the buffer with every pending second write applied), is a stutter or the
  abstract swap (C6), and every run is simulated by a finite sequence of such swaps
  (C18). Hence the committed view is always a permutation of \<open>0 .. N-1\<close>
  (C2), and after the last join the buffer itself is, with every mutex free (C1).
  \<open>checkBuffer\<close> compares with 45: for a finished run it reports "correct" exactly when
  \<open>N = 10\<close> (C8), and for \<open>N > 65536\<close> its running sum overflows a 32-bit int (C9).
  The unlocked reads of the log line can print a buffer that is no permutation (C10),
  and the back-off protocol admits a livelock in which both workers keep moving forever
  without completing a swap (C11). The initialisation loop writes the identity (C12).
  Despite the livelock, from
  every reachable state some schedule still completes the run (C13). For whole runs: a
  run past every \<open>exit(1)\<close> ends with a permutation, no destruction failure and the verdict
  of C8 (C14); status 1 arises exactly from a failed allocation or thread creation (C15);
  and with every allocation and thread creation succeeding a completed run exists (C16). Each worker of a finished
  run has printed exactly \<open>iterations\<close> log lines (C17). The printed snapshot of
  \<open>print_buffer\<close> reads back as the buffer it prints (C19), and the report of a completed
  run prints an after-snapshot that is a permutation, directly followed by the verdict
  of C8 (C20). A worker that is the only mutex holder, run alone, returns from \<open>swap\<close>
  whatever \<open>rand()\<close> yields (C21), while a worker with a negative count never returns
  (C22). Every stored and printed value is an int in \<open>[0, N)\<close> (C23), and a swap that
  drew \<open>i = j\<close> leaves the buffer unchanged and never takes the back-off path (C24). With \<open>N = 1\<close>
  the buffer is \<open>[0]\<close> throughout (C25); the committed view always sums to
  \<open>N (N - 1) / 2\<close> (C26); and with the default options of \<open>main\<close> a run completes and
  every completed run is reported "Correct buffer" (C27). The summation loop of \<open>checkBuffer\<close> equals the reference
  meaning of a C sum, defined exactly when every running sum is an int (C28). On the
  output: status 1 arises exactly from a failed allocation or creation and is announced by
  an \<open>exit(1)\<close> message after which only worker log lines can follow (C29); a status-0 run
  prints the mutex messages, the banner, the initial snapshot, exactly
  \<open>num_threads * iterations\<close> log lines and then the final snapshot, in this order (C30);
  and at most \<open>num_threads * iterations\<close> lines are ever printed (C31). Only threads that
  are created and not yet joined hold mutexes (C32); and with \<open>N = 2\<close> every finished run ends with \<open>[0, 1]\<close> or \<open>[1, 0]\<close> (C33).

  \<^bold>\<open>Bounds and fuel.\<close> No fuel is used: loops with a bound are recursive functions with
  a measure (\<open>init_loop\<close>) or structural (\<open>check_sum\<close>, \<open>print_buffer\<close>); the
  unbounded retry loops of \<open>swap\<close> are states of the step relation, so their
  non-termination is a property of runs (C11), not of a definition. The one loop read
  as a function, \<open>solo_run\<close>, is a \<^theory_text>\<open>partial_function (option)\<close>, and its
  return is proved as such (C21), with the rank \<open>solo_rank\<close> of \<open>Progress\<close> as the
  measure. The decrement of \<open>iterations\<close> is undefined at \<open>INT_MIN\<close> and the model
  stops there (\<open>None\<close>).

  \<^bold>\<open>Not modelled.\<close> The value of the \<open>clock()\<close> timing (its text is an input of
  \<open>report\<close> and \<open>stdout\<close>, like the results of \<open>rand()\<close>), \<open>srand\<close> and
  the quality of \<open>rand()\<close>, the \<open>pthread_t\<close> handles of \<open>struct thread_info\<close> (a thread
  is named by its index),
  \<open>read_options\<close> (\<^verbatim>\<open>options.h\<close> and its parser are not part of the repository, so only
  the options structure and the ranges the spec gives are modelled, besides the defaults
  \<open>main\<close> sets), the \<open>free\<close> calls (they release memory only), and the behaviour of a
  mutex whose initialisation failed, which POSIX leaves undefined: it is treated as an
  unlocked mutex (the run then goes on with undefined behaviour, a finding of the
  manifest, not a theorem).
\<close>

definition opt_one :: options where
  "opt_one = \<lparr>num_threads = 1, buffer_size = 2, iterations_opt = 1, delay_opt = 10\<rparr>"

definition sched_one :: "action list" where
  "sched_one = [Create, Work 0 (0, 0), Work 0 (4, 7), Work 0 (0, 0), Work 0 (0, 0),
     Work 0 (0, 0), Work 0 (0, 0), Work 0 (0, 0), Work 0 (0, 0), Work 0 (0, 0),
     Work 0 (0, 0), Work 0 (0, 0), Join]"

definition opt_two :: options where
  "opt_two = \<lparr>num_threads = 2, buffer_size = 4, iterations_opt = 1, delay_opt = 10\<rparr>"

definition sched_two :: "action list" where
  "sched_two = [Create, Create, Work 0 (0, 0), Work 0 (0, 1), Work 0 (0, 0), Work 0 (0, 0),
     Work 0 (0, 0), Work 1 (0, 0), Work 1 (2, 3), Work 1 (0, 0), Work 1 (0, 0), Work 1 (0, 0)]"

definition opt_big :: options where
  "opt_big = \<lparr>num_threads = 0, buffer_size = 65537, iterations_opt = 0, delay_opt = 0\<rparr>"

definition sched_id :: "action list" where
  "sched_id = [Create, Work 0 (0, 0), Work 0 (2, 4), Work 0 (0, 0), Work 0 (0, 0),
     Work 0 (0, 0), Work 0 (0, 0), Work 0 (0, 0)]"

definition opt_n1 :: options where
  "opt_n1 = \<lparr>num_threads = 2, buffer_size = 1, iterations_opt = 3, delay_opt = 10\<rparr>"

definition opt_neg :: options where
  "opt_neg = \<lparr>num_threads = 1, buffer_size = 2, iterations_opt = -1, delay_opt = 0\<rparr>"

definition env_one :: env where
  "env_one = \<lparr>buffer_alloc_ok = True, fresh = (\<lambda>_. 7), mutex_init_ok = (\<lambda>_. True),
     threads_alloc_ok = True, args_alloc_ok = True, create_ok = (\<lambda>_. True)\<rparr>"

definition env_create_fails :: env where
  "env_create_fails = env_one\<lparr>create_ok := (\<lambda>i. i \<noteq> 0)\<rparr>"

definition state_of :: "options \<Rightarrow> action list \<Rightarrow> sys" where
  "state_of opt as = the (run (init_sys opt) as)"

definition txt_fail :: string where
  "txt_fail = concat (map message_text [MutexCreated 0, MutexCreated 1]) @ creating_text opt_one @
     before_text (init_sys opt_one) @ abort_text (CouldNotCreateThread 0)"

definition txt_one :: string where
  "txt_one = the (report opt_one [MutexCreated 0, MutexCreated 1] (init_sys opt_one)
                    (state_of opt_one sched_one) ''0.000100'')"

subsection \<open>Concrete runs\<close>

lemma state_of_reachable:
  "run (init_sys opt) as \<noteq> None \<Longrightarrow> reachable opt (state_of opt as)"
  by (auto simp: state_of_def intro: run_reachable[OF _ reachable.init])

lemmas fixtures = opt_one_def sched_one_def opt_two_def sched_two_def state_of_def

lemma valid_opt_one: "valid_options opt_one"
  by (simp add: opt_one_def valid_options_def)

lemma valid_opt_two: "valid_options opt_two"
  by (simp add: opt_two_def valid_options_def)

lemma reach_one: "reachable opt_one (state_of opt_one (take n sched_one))"
  by (rule state_of_reachable) (cases "n \<le> 13"; simp add: fixtures run_eval take_Cons')

lemma reach_two: "reachable opt_two (state_of opt_two sched_two)"
  by (rule state_of_reachable) (simp add: fixtures run_eval)

lemma setup_one:
  "start_setup opt_one env_one = Inr (init_sys opt_one, [MutexCreated 0, MutexCreated 1])"
  using start_setup_ok[OF valid_opt_one] by (simp add: env_one_def opt_one_def upt_rec)

lemma finished_one: "finished (state_of opt_one sched_one)"
  by (simp add: fixtures run_eval)

lemma run_one: "run (init_sys opt_one) sched_one = Some (state_of opt_one sched_one)"
  by (simp add: fixtures run_eval)

lemma program_one:
  "program opt_one env_one (Completed (state_of opt_one sched_one)
      (checkBuffer (buf (state_of opt_one sched_one))) (destroy_msgs (state_of opt_one sched_one)))"
  using program.completes[OF setup_one run_star[OF run_one] finished_one] by (simp add: env_one_def)

lemma verdict_one: "checkBuffer (buf (state_of opt_one sched_one)) = Some False"
  by (simp add: fixtures run_eval checkBuffer_def in_int_range_def INT_MAX_def)

lemma report_one:
  "report opt_one [MutexCreated 0, MutexCreated 1] (init_sys opt_one) (state_of opt_one sched_one)
     ''0.000100'' = Some txt_one"
  using verdict_one by (simp add: txt_one_def report_def)

lemma stdout_one: "stdout opt_one env_one ''0.000100'' txt_one 0"
  using stdout.completes[OF setup_one run_star[OF run_one] finished_one _ report_one]
  by (simp add: env_one_def)

subsection \<open>End-to-end results\<close>

text \<open>C1 (final permutation): after the coordinator has joined every worker, the buffer
  is a permutation of its initial contents \<open>0 .. N-1\<close> (no value lost or duplicated), and
  every mutex is unlocked, so the destruction loop of lines 183--187 meets no locked
  mutex.\<close>

theorem final_buffer_perm:
  assumes "reachable opt s" and "valid_options opt" and "finished s"
  shows "is_perm_upto (data (buf s)) (nat (buffer_size opt)) \<and>
         (\<forall>k < length (data (buf s)). mutexes s ! k = None)"
  using finished_perm_facts[OF assms] by blast

text \<open>C8 (checkBuffer verdict): after a finished run whose sum fits a 32-bit int,
  \<open>checkBuffer\<close> reports a correct buffer exactly when \<open>N = 10\<close>. The constant 45 of
  line 98 is \<open>N(N-1)/2\<close> only for the default size: every other size is reported as
  "Incorrect buffer" although the buffer is a permutation (C1).\<close>

theorem final_check_verdict:
  assumes "reachable opt s" and "valid_options opt" and "finished s"
    and "nat (buffer_size opt) \<le> 65536"
  shows "checkBuffer (buf s) = Some (nat (buffer_size opt) = 10)"
  using finished_perm_facts[OF assms(1-3)] checkBuffer_perm assms(4) by blast

text \<open>C9 (overflow bound): after a finished run with \<open>N > 65536\<close>, the running sum of
  \<open>checkBuffer\<close> leaves the range of a 32-bit int: the check has undefined behaviour.\<close>

theorem final_check_overflow:
  assumes "reachable opt s" and "valid_options opt" and "finished s"
    and "65536 < nat (buffer_size opt)"
  shows "checkBuffer (buf s) = None"
  using finished_perm_facts[OF assms(1-3)] checkBuffer_overflow assms(4) by blast

subsection \<open>Witnesses\<close>

text \<open>Each claim with hypotheses, applied to a state of a concrete run in which the
  hypotheses hold: \<open>opt_one\<close> runs one worker on two positions to completion,
  \<open>opt_two\<close> brings two workers into their critical sections on disjoint positions.\<close>

theorem final_buffer_perm_witness:
  "reachable opt_one (state_of opt_one sched_one) \<and> valid_options opt_one \<and>
   finished (state_of opt_one sched_one) \<and>
   is_perm_upto (data (buf (state_of opt_one sched_one))) (nat (buffer_size opt_one)) \<and>
   data (buf (state_of opt_one sched_one)) = [1, 0] \<and>
   mutexes (state_of opt_one sched_one) = [None, None]"
proof -
  have r: "reachable opt_one (state_of opt_one sched_one)"
    using reach_one[of 13] by (simp add: sched_one_def)
  have f: "finished (state_of opt_one sched_one)" by (simp add: fixtures run_eval)
  show ?thesis using final_buffer_perm[OF r valid_opt_one f] r valid_opt_one f
    by (simp add: fixtures run_eval)
qed

text \<open>C33 (two slots): with \<open>N = 2\<close>, whatever the number of workers and iterations, a
  finished run leaves the buffer \<open>[0, 1]\<close> or \<open>[1, 0]\<close>, the spec's scenario for two
  slots (sum 1, multiset \<open>{0, 1}\<close>).\<close>

theorem two_slot_outcomes:
  assumes "reachable opt s" and "valid_options opt" and "finished s" and "buffer_size opt = 2"
  shows "data (buf s) = [0, 1] \<or> data (buf s) = [1, 0]"
proof -
  have m: "mset (data (buf s)) = {#0, 1#}"
    using finished_perm_facts[OF assms(1-3)] assms(4) by (simp add: is_perm_upto_def numeral_eq_Suc)
  then have "length (data (buf s)) = 2" by (metis size_mset size_add_mset size_empty numeral_2_eq_2 One_nat_def)
  then obtain a b where d: "data (buf s) = [a, b]" by (auto simp: numeral_2_eq_2 length_Suc_conv)
  with m have "{#a, b#} = {#0, 1#}" by simp
  then have "(a = 0 \<and> b = 1) \<or> (a = 1 \<and> b = 0)" by (auto simp: add_eq_conv_ex)
  then show ?thesis using d by auto
qed

theorem committed_perm_witness:
  "reachable opt_one (state_of opt_one (take 8 sched_one)) \<and> valid_options opt_one \<and>
   data (buf (state_of opt_one (take 8 sched_one))) = [1, 1] \<and>
   committed (state_of opt_one (take 8 sched_one)) = [1, 0] \<and>
   mset (committed (state_of opt_one (take 8 sched_one))) = mset (map int [0..<nat (buffer_size opt_one)])"
proof -
  have r: "reachable opt_one (state_of opt_one (take 8 sched_one))" by (rule reach_one)
  show ?thesis using committed_perm[OF r valid_opt_one] r valid_opt_one
    by (simp add: fixtures run_eval committed_def committed_val_def)
qed

theorem mutual_exclusion_witness:
  "reachable opt_two (state_of opt_two sched_two) \<and> valid_options opt_two \<and>
   0 < length (workers (state_of opt_two sched_two)) \<and> 1 < length (workers (state_of opt_two sched_two)) \<and>
   critical (pc (workers (state_of opt_two sched_two) ! 0)) \<and>
   critical (pc (workers (state_of opt_two sched_two) ! 1)) \<and>
   {wi (workers (state_of opt_two sched_two) ! 0), wj (workers (state_of opt_two sched_two) ! 0)} = {0, 1} \<and>
   {wi (workers (state_of opt_two sched_two) ! 1), wj (workers (state_of opt_two sched_two) ! 1)} = {2, 3} \<and>
   {wi (workers (state_of opt_two sched_two) ! 0), wj (workers (state_of opt_two sched_two) ! 0)} \<inter>
   {wi (workers (state_of opt_two sched_two) ! 1), wj (workers (state_of opt_two sched_two) ! 1)} = {}"
proof -
  have l: "0 < length (workers (state_of opt_two sched_two))" "1 < length (workers (state_of opt_two sched_two))"
    and c: "critical (pc (workers (state_of opt_two sched_two) ! 0))"
      "critical (pc (workers (state_of opt_two sched_two) ! 1))"
    by (simp_all add: fixtures run_eval critical_def)
  show ?thesis using mutual_exclusion[OF reach_two valid_opt_two l _ c] reach_two valid_opt_two l c
    by (simp add: fixtures run_eval)
qed

theorem access_under_lock_witness:
  "reachable opt_two (state_of opt_two sched_two) \<and> valid_options opt_two \<and>
   1 < length (workers (state_of opt_two sched_two)) \<and>
   pc (workers (state_of opt_two sched_two) ! 1) = ReadI \<and>
   wi (workers (state_of opt_two sched_two) ! 1) < length (data (buf (state_of opt_two sched_two))) \<and>
   wj (workers (state_of opt_two sched_two) ! 1) < length (data (buf (state_of opt_two sched_two))) \<and>
   mutexes (state_of opt_two sched_two) ! wi (workers (state_of opt_two sched_two) ! 1) = Some 1 \<and>
   mutexes (state_of opt_two sched_two) ! wj (workers (state_of opt_two sched_two) ! 1) = Some 1"
proof -
  have l: "1 < length (workers (state_of opt_two sched_two))"
    and p: "pc (workers (state_of opt_two sched_two) ! 1) \<in> {ReadI, WriteI, WriteJ}"
    by (simp_all add: fixtures run_eval)
  show ?thesis using access_under_lock[OF reach_two valid_opt_two l p] reach_two valid_opt_two l
    by (simp add: fixtures run_eval)
qed

theorem deadlock_free_witness:
  "reachable opt_one (state_of opt_one (take 8 sched_one)) \<and> valid_options opt_one \<and>
   \<not> finished (state_of opt_one (take 8 sched_one)) \<and>
   (\<exists>s'. sys_step (state_of opt_one (take 8 sched_one)) s')"
proof -
  have r: "reachable opt_one (state_of opt_one (take 8 sched_one))" by (rule reach_one)
  have f: "\<not> finished (state_of opt_one (take 8 sched_one))" by (simp add: fixtures run_eval)
  show ?thesis using deadlock_free[OF r valid_opt_one f] r valid_opt_one f by blast
qed

theorem step_refines_swap_witness:
  "reachable opt_one (state_of opt_one (take 7 sched_one)) \<and> valid_options opt_one \<and>
   sys_step (state_of opt_one (take 7 sched_one)) (state_of opt_one (take 8 sched_one)) \<and>
   committed (state_of opt_one (take 8 sched_one)) =
     list_swap (committed (state_of opt_one (take 7 sched_one))) 0 1 \<and>
   (committed (state_of opt_one (take 8 sched_one)) = committed (state_of opt_one (take 7 sched_one)) \<or>
    (\<exists>i < length (committed (state_of opt_one (take 7 sched_one))).
     \<exists>j < length (committed (state_of opt_one (take 7 sched_one))).
       committed (state_of opt_one (take 8 sched_one)) =
         list_swap (committed (state_of opt_one (take 7 sched_one))) i j))"
proof -
  have r: "reachable opt_one (state_of opt_one (take 7 sched_one))" by (rule reach_one)
  have "exec_action (Work 0 (0, 0)) (state_of opt_one (take 7 sched_one)) =
        Some (state_of opt_one (take 8 sched_one))"
    by (simp add: fixtures run_eval)
  then have st: "sys_step (state_of opt_one (take 7 sched_one)) (state_of opt_one (take 8 sched_one))"
    using sys_step_iff_action by blast
  have "committed (state_of opt_one (take 8 sched_one)) =
        list_swap (committed (state_of opt_one (take 7 sched_one))) 0 1"
    by (simp add: fixtures run_eval committed_def committed_val_def list_swap_def)
  then show ?thesis using step_refines_swap[OF r valid_opt_one st] r valid_opt_one st by blast
qed

theorem unlock_by_owner_witness:
  "reachable opt_one (state_of opt_one (take 9 sched_one)) \<and> valid_options opt_one \<and>
   0 < created (state_of opt_one (take 9 sched_one)) \<and>
   pc (workers (state_of opt_one (take 9 sched_one)) ! 0) = UnlockI \<and>
   mutexes (state_of opt_one (take 9 sched_one)) = [Some 0, Some 0] \<and>
   (\<exists>s'. worker_step (0, 0) 0 (state_of opt_one (take 9 sched_one)) = Some s' \<and>
      mutexes s' = [None, Some 0])"
proof -
  have r: "reachable opt_one (state_of opt_one (take 9 sched_one))" by (rule reach_one)
  have c: "0 < created (state_of opt_one (take 9 sched_one))" by (simp add: fixtures run_eval)
  have p: "pc (workers (state_of opt_one (take 9 sched_one)) ! 0) = UnlockI"
    and m: "mutexes (state_of opt_one (take 9 sched_one)) = [Some 0, Some 0]"
    and w: "wi (workers (state_of opt_one (take 9 sched_one)) ! 0) = 0"
    by (simp_all add: fixtures run_eval)
  have q: "pc (workers (state_of opt_one (take 9 sched_one)) ! 0) \<in> {BackoffJ, UnlockI, UnlockJ}"
    using p by simp
  show ?thesis using unlock_by_owner[OF r valid_opt_one c q, of "(0, 0)"] r valid_opt_one c p m w
    by simp
qed
theorem final_check_verdict_witness:
  "reachable opt_one (state_of opt_one sched_one) \<and> valid_options opt_one \<and>
   finished (state_of opt_one sched_one) \<and> nat (buffer_size opt_one) \<le> 65536 \<and>
   checkBuffer (buf (state_of opt_one sched_one)) = Some False"
proof -
  have r: "reachable opt_one (state_of opt_one sched_one)"
    using reach_one[of 13] by (simp add: sched_one_def)
  have f: "finished (state_of opt_one sched_one)" by (simp add: fixtures run_eval)
  have b: "nat (buffer_size opt_one) \<le> 65536" by (simp add: opt_one_def)
  show ?thesis using final_check_verdict[OF r valid_opt_one f b] r valid_opt_one f b
    by (simp add: opt_one_def)
qed

theorem final_check_overflow_witness:
  "reachable opt_big (init_sys opt_big) \<and> valid_options opt_big \<and> finished (init_sys opt_big) \<and>
   65536 < nat (buffer_size opt_big) \<and> checkBuffer (buf (init_sys opt_big)) = None"
proof -
  have r: "reachable opt_big (init_sys opt_big)" by (rule reachable.init)
  have v: "valid_options opt_big" by (simp add: opt_big_def valid_options_def)
  have f: "finished (init_sys opt_big)" by (simp add: opt_big_def init_sys_def finished_def)
  have b: "65536 < nat (buffer_size opt_big)" by (simp add: opt_big_def)
  show ?thesis using final_check_overflow[OF r v f b] r v f b by blast
qed

theorem completion_reachable_witness:
  "reachable opt_one (state_of opt_one (take 8 sched_one)) \<and> valid_options opt_one \<and>
   \<not> finished (state_of opt_one (take 8 sched_one)) \<and>
   (\<exists>s'. sys_step\<^sup>*\<^sup>* (state_of opt_one (take 8 sched_one)) s' \<and> finished s')"
proof -
  have r: "reachable opt_one (state_of opt_one (take 8 sched_one))" by (rule reach_one)
  have f: "\<not> finished (state_of opt_one (take 8 sched_one))" by (simp add: fixtures run_eval)
  show ?thesis using completion_reachable[OF r valid_opt_one] r valid_opt_one f by blast
qed

theorem program_completed_correct_witness:
  "program opt_one env_one (Completed (state_of opt_one sched_one)
      (checkBuffer (buf (state_of opt_one sched_one))) (destroy_msgs (state_of opt_one sched_one))) \<and>
   valid_options opt_one \<and>
   is_perm_upto (data (buf (state_of opt_one sched_one))) (nat (buffer_size opt_one)) \<and>
   destroy_msgs (state_of opt_one sched_one) = [] \<and>
   checkBuffer (buf (state_of opt_one sched_one)) = Some False"
proof -
  note st = setup_one and f = finished_one and p = program_one
  show ?thesis using program_completed_correct[OF p valid_opt_one] p valid_opt_one
    by (simp add: opt_one_def)
qed

theorem program_aborts_iff_witness:
  "valid_options opt_one \<and> \<not> env_ok opt_one env_create_fails \<and>
   (\<exists>r. program opt_one env_create_fails (Aborted r))"
proof -
  have "\<not> env_ok opt_one env_create_fails"
    by (simp add: env_ok_def env_create_fails_def env_one_def opt_one_def)
  then show ?thesis using program_aborts_iff[OF valid_opt_one, of env_create_fails] valid_opt_one
    by blast
qed

theorem program_can_complete_witness:
  "valid_options opt_one \<and> env_ok opt_one env_one \<and>
   (\<exists>s. program opt_one env_one (Completed s (checkBuffer (buf s)) []))"
proof -
  have e: "env_ok opt_one env_one" by (simp add: env_ok_def env_one_def)
  show ?thesis using program_can_complete[OF valid_opt_one e] valid_opt_one e by blast
qed

theorem lines_per_worker_witness:
  "reachable opt_one (state_of opt_one sched_one) \<and> valid_options opt_one \<and>
   finished (state_of opt_one sched_one) \<and> 0 < length (workers (state_of opt_one sched_one)) \<and>
   lines_of (state_of opt_one sched_one) 0 = nat (iterations_opt opt_one) \<and>
   lines_of (state_of opt_one sched_one) 0 = 1"
proof -
  have r: "reachable opt_one (state_of opt_one sched_one)"
    using reach_one[of 13] by (simp add: sched_one_def)
  have f: "finished (state_of opt_one sched_one)" by (simp add: fixtures run_eval)
  have l: "0 < length (workers (state_of opt_one sched_one))" by (simp add: fixtures run_eval)
  show ?thesis using lines_per_worker[OF r valid_opt_one f l] r valid_opt_one f l
    by (simp add: opt_one_def)
qed

theorem reachable_refines_swaps_witness:
  "reachable opt_one (state_of opt_one (take 8 sched_one)) \<and> valid_options opt_one \<and>
   committed (state_of opt_one (take 8 sched_one)) = apply_swaps [0, 1] [(0, 1)] \<and>
   (\<exists>ps. (\<forall>p \<in> set ps. fst p < nat (buffer_size opt_one) \<and> snd p < nat (buffer_size opt_one)) \<and>
      committed (state_of opt_one (take 8 sched_one)) = apply_swaps (map int [0..<nat (buffer_size opt_one)]) ps)"
proof -
  have r: "reachable opt_one (state_of opt_one (take 8 sched_one))" by (rule reach_one)
  have "committed (state_of opt_one (take 8 sched_one)) = apply_swaps [0, 1] [(0, 1)]"
    by (simp add: fixtures run_eval committed_def committed_val_def apply_swaps_def list_swap_def)
  then show ?thesis using reachable_refines_swaps[OF r valid_opt_one] r valid_opt_one by blast
qed

theorem print_buffer_roundtrip_witness:
  "nat (bsize \<lparr>data = [1, -7, 0], bsize = 2\<rparr>) \<le> length (data \<lparr>data = [1, -7, 0], bsize = 2\<rparr>) \<and>
   parse_buffer (print_buffer \<lparr>data = [1, -7, 0], bsize = 2\<rparr>) = Some [1, -7]"
  using print_buffer_roundtrip[of "\<lparr>data = [1, -7, 0], bsize = 2\<rparr>"] by simp

theorem completed_report_witness:
  "program opt_one env_one (Completed (state_of opt_one sched_one)
      (checkBuffer (buf (state_of opt_one sched_one))) (destroy_msgs (state_of opt_one sched_one))) \<and>
   valid_options opt_one \<and>
   start_setup opt_one env_one = Inr (init_sys opt_one, [MutexCreated 0, MutexCreated 1]) \<and>
   nat (buffer_size opt_one) \<le> 65536 \<and>
   (\<exists>pre post. report opt_one [MutexCreated 0, MutexCreated 1] (init_sys opt_one)
       (state_of opt_one sched_one) ''0.000100'' =
     Some (pre @ ''Buffer after:  '' @ print_buffer (buf (state_of opt_one sched_one)) @ ''\<newline>'' @
           ''Incorrect buffer\<newline>'' @ post))"
proof -
  note st = setup_one and f = finished_one and p = program_one
  have b: "nat (buffer_size opt_one) \<le> 65536" by (simp add: opt_one_def)
  show ?thesis
    using completed_report[OF p valid_opt_one st b, of "''0.000100''"] p valid_opt_one st b
    by (simp add: opt_one_def verdict_text_def)
qed

theorem solo_run_terminates_witness:
  "sys_inv (state_of opt_one (take 1 sched_one)) \<and> 0 < created (state_of opt_one (take 1 sched_one)) \<and>
   only_holder (state_of opt_one (take 1 sched_one)) 0 \<and> rand_ok (4, 7) \<and>
   (\<exists>s'. solo_run (\<lambda>_. (4, 7)) 0 (state_of opt_one (take 1 sched_one)) = Some s' \<and>
      pc (workers s' ! 0) = Exit \<and> sys_step\<^sup>*\<^sup>* (state_of opt_one (take 1 sched_one)) s')"
proof -
  have i: "sys_inv (state_of opt_one (take 1 sched_one))"
    using reachable_inv[OF reach_one valid_opt_one] .
  have c: "0 < created (state_of opt_one (take 1 sched_one))" by (simp add: fixtures run_eval)
  have o: "only_holder (state_of opt_one (take 1 sched_one)) 0"
    by (simp add: fixtures run_eval only_holder_def less_Suc_eq)
  have r: "\<forall>k. rand_ok ((\<lambda>_. (4, 7)) k)" by (simp add: rand_ok_def RAND_MAX_def)
  show ?thesis using solo_run_terminates[OF i c o r] i c o r by simp
qed

theorem solo_run_negative_witness:
  "0 < length (workers (init_sys opt_neg)) \<and> iterations (workers (init_sys opt_neg) ! 0) < 0 \<and>
   pc (workers (init_sys opt_neg) ! 0) \<noteq> Exit \<and> solo_run (\<lambda>_. (0, 0)) 0 (init_sys opt_neg) = None"
proof -
  have a: "0 < length (workers (init_sys opt_neg))" "iterations (workers (init_sys opt_neg) ! 0) < 0"
    "pc (workers (init_sys opt_neg) ! 0) \<noteq> Exit"
    by (simp_all add: opt_neg_def init_sys_def init_worker_def)
  show ?thesis using solo_run_negative[OF a] a by simp
qed

theorem values_in_range_witness:
  "reachable opt_one (state_of opt_one (take 8 sched_one)) \<and> valid_options opt_one \<and>
   values_ok (buffer_size opt_one) (state_of opt_one (take 8 sched_one))"
  using values_in_range[OF reach_one valid_opt_one] reach_one valid_opt_one by blast

theorem identity_swap_witness:
  "reachable opt_one (state_of opt_one (take 7 sched_id)) \<and> valid_options opt_one \<and>
   0 < created (state_of opt_one (take 7 sched_id)) \<and>
   wi (workers (state_of opt_one (take 7 sched_id)) ! 0) = wj (workers (state_of opt_one (take 7 sched_id)) ! 0) \<and>
   pc (workers (state_of opt_one (take 7 sched_id)) ! 0) = WriteJ \<and>
   worker_step (0, 0) 0 (state_of opt_one (take 7 sched_id)) = Some (state_of opt_one sched_id) \<and>
   data (buf (state_of opt_one sched_id)) = data (buf (state_of opt_one (take 7 sched_id)))"
proof -
  have r: "reachable opt_one (state_of opt_one (take 7 sched_id))"
    by (rule state_of_reachable) (simp add: fixtures sched_id_def run_eval)
  have c: "0 < created (state_of opt_one (take 7 sched_id))"
    by (simp add: fixtures sched_id_def run_eval)
  have e: "wi (workers (state_of opt_one (take 7 sched_id)) ! 0) =
           wj (workers (state_of opt_one (take 7 sched_id)) ! 0)"
    by (simp add: fixtures sched_id_def run_eval)
  have p: "pc (workers (state_of opt_one (take 7 sched_id)) ! 0) = WriteJ"
    by (simp add: fixtures sched_id_def run_eval)
  have st: "worker_step (0, 0) 0 (state_of opt_one (take 7 sched_id)) = Some (state_of opt_one sched_id)"
    by (simp add: fixtures sched_id_def run_eval)
  show ?thesis using identity_swap[OF r valid_opt_one c e st] r valid_opt_one c e p st by blast
qed

theorem single_slot_buffer_witness:
  "reachable opt_n1 (state_of opt_n1 [Create, Work 0 (0, 0), Work 0 (5, 9), Work 0 (0, 0)]) \<and>
   valid_options opt_n1 \<and> buffer_size opt_n1 = 1 \<and>
   data (buf (state_of opt_n1 [Create, Work 0 (0, 0), Work 0 (5, 9), Work 0 (0, 0)])) = [0] \<and>
   committed (state_of opt_n1 [Create, Work 0 (0, 0), Work 0 (5, 9), Work 0 (0, 0)]) = [0]"
proof -
  have r: "reachable opt_n1 (state_of opt_n1 [Create, Work 0 (0, 0), Work 0 (5, 9), Work 0 (0, 0)])"
    by (rule state_of_reachable) (simp add: opt_n1_def run_eval)
  have v: "valid_options opt_n1" and b: "buffer_size opt_n1 = 1"
    by (simp_all add: opt_n1_def valid_options_def)
  show ?thesis using single_slot_buffer[OF r v b] r v b by blast
qed

theorem committed_sum_invariant_witness:
  "reachable opt_one (state_of opt_one (take 8 sched_one)) \<and> valid_options opt_one \<and>
   2 * sum_list (committed (state_of opt_one (take 8 sched_one))) = 2"
  using committed_sum_invariant[OF reach_one valid_opt_one] reach_one valid_opt_one
  by (simp add: opt_one_def)

theorem default_run_correct_witness:
  "env_ok default_options env_one \<and>
   (\<exists>s. program default_options env_one (Completed s (Some True) []))"
proof -
  have e: "env_ok default_options env_one" by (simp add: env_ok_def env_one_def)
  show ?thesis using default_run_correct[OF e] e by blast
qed

theorem stdout_status_witness:
  "stdout opt_one env_create_fails ''0.000100'' txt_fail 1 \<and> valid_options opt_one \<and>
   \<not> env_ok opt_one env_create_fails \<and>
   (\<exists>pre r ls. txt_fail = pre @ abort_text r @ concat (map print_logline ls) \<and>
      (r = OutOfMemory \<longleftrightarrow> \<not> buffer_alloc_ok env_create_fails))"
proof -
  have st: "start_setup opt_one env_create_fails = Inr (init_sys opt_one, [MutexCreated 0, MutexCreated 1])"
    using start_setup_ok[OF valid_opt_one]
    by (simp add: env_create_fails_def env_one_def opt_one_def upt_rec)
  have "stdout opt_one env_create_fails ''0.000100''
     (concat (map message_text [MutexCreated 0, MutexCreated 1]) @ creating_text opt_one @
      before_text (init_sys opt_one) @ concat (map print_logline (out (init_sys opt_one))) @
      abort_text (CouldNotCreateThread (created (init_sys opt_one))) @
      concat (map print_logline (drop (length (out (init_sys opt_one))) (out (init_sys opt_one))))) 1"
    by (rule stdout.create_fails[OF st rtranclp.rtrancl_refl _ _ _ rtranclp.rtrancl_refl refl])
       (simp_all add: init_sys_def opt_one_def env_create_fails_def env_one_def Let_def)
  then have s: "stdout opt_one env_create_fails ''0.000100'' txt_fail 1"
    by (simp add: txt_fail_def init_sys_def Let_def)
  show ?thesis using stdout_status[OF s valid_opt_one] s valid_opt_one by simp
qed

theorem stdout_completed_order_witness:
  "stdout opt_one env_one ''0.000100'' txt_one 0 \<and> valid_options opt_one \<and>
   (\<exists>ls post. txt_one = concat (map message_text (mutex_msgs opt_one env_one)) @ creating_text opt_one @
      before_text (init_sys opt_one) @ concat (map print_logline ls) @
      ''\<newline>'' @ ''Buffer after:  '' @ post \<and> length ls = 1)"
  using stdout_completed_order[OF stdout_one valid_opt_one] stdout_one valid_opt_one
  by (simp add: opt_one_def)

theorem log_length_bound_witness:
  "reachable opt_one (state_of opt_one (take 8 sched_one)) \<and> valid_options opt_one \<and>
   length (out (state_of opt_one (take 8 sched_one))) \<le> 1"
  using log_length_bound[OF reach_one valid_opt_one] reach_one valid_opt_one
  by (simp add: opt_one_def)

theorem holders_are_live_witness:
  "reachable opt_one (state_of opt_one (take 8 sched_one)) \<and> valid_options opt_one \<and>
   0 < length (mutexes (state_of opt_one (take 8 sched_one))) \<and>
   mutexes (state_of opt_one (take 8 sched_one)) ! 0 = Some 0 \<and>
   joined (state_of opt_one (take 8 sched_one)) \<le> 0 \<and> 0 < created (state_of opt_one (take 8 sched_one))"
proof -
  have k: "0 < length (mutexes (state_of opt_one (take 8 sched_one)))"
    and m: "mutexes (state_of opt_one (take 8 sched_one)) ! 0 = Some 0"
    by (simp_all add: fixtures run_eval)
  show ?thesis using holders_are_live[OF reach_one valid_opt_one k m] reach_one valid_opt_one k m
    by blast
qed

theorem two_slot_outcomes_witness:
  "reachable opt_one (state_of opt_one sched_one) \<and> valid_options opt_one \<and>
   finished (state_of opt_one sched_one) \<and> buffer_size opt_one = 2 \<and>
   (data (buf (state_of opt_one sched_one)) = [0, 1] \<or> data (buf (state_of opt_one sched_one)) = [1, 0])"
proof -
  have r: "reachable opt_one (state_of opt_one sched_one)"
    using reach_one[of 13] by (simp add: sched_one_def)
  have b: "buffer_size opt_one = 2" by (simp add: opt_one_def)
  show ?thesis using two_slot_outcomes[OF r valid_opt_one finished_one b] r valid_opt_one finished_one b
    by blast
qed

end
